theory Spec2Isabelle
  imports Main
begin

section \<open>Python values and failures\<close>

text \<open>
  The embedding follows \<^verbatim>\<open>src/game.py\<close>. A Python exception is a value of
  type \<open>error\<close> on the left of a sum. Two constructors are not exceptions:
  \<^item> \<open>ReturnedNotImplemented\<close>: \<^verbatim>\<open>Players.other_player\<close> and
    \<^verbatim>\<open>NegamaxResults.__neg__\<close> return the singleton \<^verbatim>\<open>NotImplemented\<close>
    on one input each. That object is no member of the enumerations; the model stops
    at this point with a failure of its own, so that reaching those two branches can
    be observed in the result.
  \<^item> \<open>OutOfFuel\<close>: the recursion budget of the model of \<^verbatim>\<open>_negamax\<close> is used up.
\<close>

datatype error = IndexError | ValueError | TypeError | ReturnedNotImplemented | OutOfFuel

definition bindE :: "error + 'a \<Rightarrow> ('a \<Rightarrow> error + 'b) \<Rightarrow> error + 'b" where
  "bindE m f = (case m of Inl e \<Rightarrow> Inl e | Inr x \<Rightarrow> f x)"

text \<open>Python list indexing: a negative index counts from the end, anything else out of
  range raises \<^verbatim>\<open>IndexError\<close>.\<close>

definition norm_index :: "nat \<Rightarrow> int \<Rightarrow> error + nat" where
  "norm_index n i =
     (let j = (if i < 0 then int n + i else i)
      in if 0 \<le> j \<and> j < int n then Inr (nat j) else Inl IndexError)"

definition getitem :: "'a list \<Rightarrow> int \<Rightarrow> error + 'a" where
  "getitem xs i = bindE (norm_index (length xs) i) (\<lambda>j. Inr (xs ! j))"

definition setitem :: "'a list \<Rightarrow> int \<Rightarrow> 'a \<Rightarrow> error + 'a list" where
  "setitem xs i v = bindE (norm_index (length xs) i) (\<lambda>j. Inr (xs[j := v]))"

section \<open>The enumerations\<close>

datatype Players = player_one | player_two | unplayed

fun Players_value :: "Players \<Rightarrow> int" where
  "Players_value player_one = 1"
| "Players_value player_two = - 1"
| "Players_value unplayed = 0"

definition max_line_sum :: int where
  "max_line_sum = 3"

definition other_player :: "Players \<Rightarrow> error + Players" where
  "other_player current_player =
     (if current_player = unplayed then Inl ReturnedNotImplemented
      else Inr (if current_player = player_one then player_two else player_one))"

datatype Results = player_one_win | player_two_win | tie | no_win

fun Results_value :: "Results \<Rightarrow> int option" where
  "Results_value player_one_win = Some 1"
| "Results_value player_two_win = Some (- 1)"
| "Results_value tie = Some 0"
| "Results_value no_win = None"

text \<open>\<^verbatim>\<open>Results(x)\<close> for a number \<open>x\<close>: the member with that value, or \<^verbatim>\<open>ValueError\<close>.
  The source passes \<^verbatim>\<open>column / 3\<close>, a float; it is called only when the sum is
  \<open>3\<close> or \<open>- 3\<close>, where the quotient is exact and \<^verbatim>\<open>1.0\<close> finds the member of
  value \<^verbatim>\<open>1\<close>.\<close>

definition Results_of_value :: "int \<Rightarrow> error + Results" where
  "Results_of_value x =
     (if x = 1 then Inr player_one_win
      else if x = - 1 then Inr player_two_win
      else if x = 0 then Inr tie
      else Inl ValueError)"

section \<open>The board\<close>

type_synonym move = "int \<times> int"

record Board =
  player :: Players
  moves :: "move list"
  board :: "Players list list"

definition Board_init :: Board where
  "Board_init =
     \<lparr> player = player_one,
       moves = [],
       board = [[unplayed, unplayed, unplayed],
                [unplayed, unplayed, unplayed],
                [unplayed, unplayed, unplayed]] \<rparr>"

text \<open>\<^verbatim>\<open>self._board[row][column]\<close> and \<^verbatim>\<open>self._board[row][column] = v\<close>.\<close>

definition get_cell :: "Players list list \<Rightarrow> int \<Rightarrow> int \<Rightarrow> error + Players" where
  "get_cell g row column = bindE (getitem g row) (\<lambda>r. getitem r column)"

definition set_cell ::
  "Players list list \<Rightarrow> int \<Rightarrow> int \<Rightarrow> Players \<Rightarrow> error + Players list list" where
  "set_cell g row column v =
     bindE (norm_index (length g) row) (\<lambda>j.
     bindE (setitem (g ! j) column v) (\<lambda>r. Inr (g[j := r])))"

text \<open>\<^verbatim>\<open>make_move\<close> returns the flag and the board after the call.\<close>

definition make_move :: "Board \<Rightarrow> int \<Rightarrow> int \<Rightarrow> error + (bool \<times> Board)" where
  "make_move b row column =
     bindE (get_cell (board b) row column) (\<lambda>c.
       if c = unplayed then
         bindE (set_cell (board b) row column (player b)) (\<lambda>g.
         bindE (other_player (player b)) (\<lambda>p.
           Inr (True, b\<lparr>board := g, moves := moves b @ [(row, column)], player := p\<rparr>)))
       else Inr (False, b))"

text \<open>\<^verbatim>\<open>undo_move\<close> returns the undone coordinate, or \<open>None\<close> for the \<^verbatim>\<open>False\<close>
  of the source when there is nothing to undo.\<close>

definition undo_move :: "Board \<Rightarrow> error + (move option \<times> Board)" where
  "undo_move b =
     (if moves b \<noteq> [] then
        (case last (moves b) of (row, column) \<Rightarrow>
           bindE (set_cell (board b) row column unplayed) (\<lambda>g.
           bindE (other_player (player b)) (\<lambda>p.
             Inr (Some (row, column),
                  b\<lparr>moves := butlast (moves b), board := g, player := p\<rparr>))))
      else Inr (None, b))"

definition reset :: "Board \<Rightarrow> Board" where
  "reset b = Board_init"

text \<open>\<^verbatim>\<open>self._board[r][c].value\<close>, and a sum of three of them, read left to right.\<close>

definition cell_value :: "Players list list \<Rightarrow> move \<Rightarrow> error + int" where
  "cell_value g rc = bindE (get_cell g (fst rc) (snd rc)) (\<lambda>p. Inr (Players_value p))"

definition sum3 :: "Players list list \<Rightarrow> move \<Rightarrow> move \<Rightarrow> move \<Rightarrow> error + int" where
  "sum3 g c1 c2 c3 =
     bindE (cell_value g c1) (\<lambda>x.
     bindE (cell_value g c2) (\<lambda>y.
     bindE (cell_value g c3) (\<lambda>z. Inr (x + y + z))))"

text \<open>The two nested loops of \<^verbatim>\<open>get_possible_moves\<close> and \<^verbatim>\<open>_board_full\<close> visit the
  cells in row-major order.\<close>

definition all_cells :: "move list" where
  "all_cells = [(0, 0), (0, 1), (0, 2), (1, 0), (1, 1), (1, 2), (2, 0), (2, 1), (2, 2)]"

fun board_full_loop :: "Players list list \<Rightarrow> move list \<Rightarrow> bool \<Rightarrow> error + bool" where
  "board_full_loop g [] full = Inr full"
| "board_full_loop g ((row, column) # cs) full =
     bindE (get_cell g row column) (\<lambda>c.
       board_full_loop g cs (if c = unplayed then False else full))"

definition board_full :: "Board \<Rightarrow> error + bool" where
  "board_full b = board_full_loop (board b) all_cells True"

fun possible_moves_loop :: "Players list list \<Rightarrow> move list \<Rightarrow> move list \<Rightarrow> error + move list" where
  "possible_moves_loop g [] possible_moves = Inr possible_moves"
| "possible_moves_loop g ((row, column) # cs) possible_moves =
     bindE (get_cell g row column) (\<lambda>c.
       possible_moves_loop g cs
         (if c = unplayed then possible_moves @ [(row, column)] else possible_moves))"

definition get_possible_moves :: "Board \<Rightarrow> error + move list" where
  "get_possible_moves b = possible_moves_loop (board b) all_cells []"

text \<open>The loop over \<^verbatim>\<open>range(3)\<close> of \<^verbatim>\<open>check_for_win\<close>: \<open>Some\<close> is a \<^verbatim>\<open>return\<close> from
  inside the loop. Both sums of an index are computed before either is tested, and the
  column is tested first.\<close>

fun check_rows_columns :: "Players list list \<Rightarrow> int list \<Rightarrow> error + Results option" where
  "check_rows_columns g [] = Inr None"
| "check_rows_columns g (i # is) =
     bindE (sum3 g (0, i) (1, i) (2, i)) (\<lambda>column.
     bindE (sum3 g (i, 0) (i, 1) (i, 2)) (\<lambda>row.
       if \<bar>column\<bar> = max_line_sum then
         bindE (Results_of_value (column div max_line_sum)) (\<lambda>w. Inr (Some w))
       else if \<bar>row\<bar> = max_line_sum then
         bindE (Results_of_value (row div max_line_sum)) (\<lambda>w. Inr (Some w))
       else check_rows_columns g is))"

definition check_for_win :: "Board \<Rightarrow> error + (bool \<times> Results)" where
  "check_for_win b =
     bindE (check_rows_columns (board b) [0, 1, 2]) (\<lambda>found.
       case found of
         Some w \<Rightarrow> Inr (True, w)
       | None \<Rightarrow>
           bindE (sum3 (board b) (0, 0) (1, 1) (2, 2)) (\<lambda>top_to_bottom.
           bindE (sum3 (board b) (2, 0) (1, 1) (0, 2)) (\<lambda>bottom_to_top.
             if \<bar>top_to_bottom\<bar> = max_line_sum then
               bindE (Results_of_value (top_to_bottom div max_line_sum)) (\<lambda>w. Inr (True, w))
             else if \<bar>bottom_to_top\<bar> = max_line_sum then
               bindE (Results_of_value (bottom_to_top div max_line_sum)) (\<lambda>w. Inr (True, w))
             else
               bindE (board_full b) (\<lambda>full.
                 if full then Inr (True, tie) else Inr (False, no_win)))))"

text \<open>\<^verbatim>\<open>get_winning_streak\<close>: the \<^verbatim>\<open>zip\<close> objects are lists of pairs here.\<close>

fun streak_rows_columns :: "Players list list \<Rightarrow> int list \<Rightarrow> error + move list option" where
  "streak_rows_columns g [] = Inr None"
| "streak_rows_columns g (i # is) =
     bindE (sum3 g (0, i) (1, i) (2, i)) (\<lambda>column.
     bindE (sum3 g (i, 0) (i, 1) (i, 2)) (\<lambda>row.
       if \<bar>column\<bar> = max_line_sum then Inr (Some (zip [0, 1, 2] [i, i, i]))
       else if \<bar>row\<bar> = max_line_sum then Inr (Some (zip [i, i, i] [0, 1, 2]))
       else streak_rows_columns g is))"

definition get_winning_streak :: "Board \<Rightarrow> error + move list" where
  "get_winning_streak b =
     bindE (streak_rows_columns (board b) [0, 1, 2]) (\<lambda>found.
       case found of
         Some streak \<Rightarrow> Inr streak
       | None \<Rightarrow>
           bindE (sum3 (board b) (0, 0) (1, 1) (2, 2)) (\<lambda>top_to_bottom.
           bindE (sum3 (board b) (2, 0) (1, 1) (0, 2)) (\<lambda>bottom_to_top.
             if \<bar>top_to_bottom\<bar> = max_line_sum then Inr (zip [0, 1, 2] [0, 1, 2])
             else if \<bar>bottom_to_top\<bar> = max_line_sum then Inr (zip (rev [0, 1, 2]) [0, 1, 2])
             else Inr [])))"

section \<open>The search\<close>

datatype NegamaxResults = NR_player | NR_other_player | NR_tie | NR_worst

fun NegamaxResults_value :: "NegamaxResults \<Rightarrow> int" where
  "NegamaxResults_value NR_player = 1"
| "NegamaxResults_value NR_other_player = - 1"
| "NegamaxResults_value NR_tie = 0"
| "NegamaxResults_value NR_worst = - 100"

definition NegamaxResults_of_value :: "int \<Rightarrow> error + NegamaxResults" where
  "NegamaxResults_of_value x =
     (if x = 1 then Inr NR_player
      else if x = - 1 then Inr NR_other_player
      else if x = 0 then Inr NR_tie
      else if x = - 100 then Inr NR_worst
      else Inl ValueError)"

definition NR_gt :: "NegamaxResults \<Rightarrow> NegamaxResults \<Rightarrow> bool" where
  "NR_gt x y = (NegamaxResults_value x > NegamaxResults_value y)"

definition NR_eq :: "NegamaxResults \<Rightarrow> NegamaxResults \<Rightarrow> bool" where
  "NR_eq x y = (NegamaxResults_value x = NegamaxResults_value y)"

definition NR_ge :: "NegamaxResults \<Rightarrow> NegamaxResults \<Rightarrow> bool" where
  "NR_ge x y = (NegamaxResults_value x \<ge> NegamaxResults_value y)"

text \<open>\<^verbatim>\<open>max(a, b)\<close> of Python keeps \<open>a\<close> unless \<open>b > a\<close>.\<close>

definition NR_max :: "NegamaxResults \<Rightarrow> NegamaxResults \<Rightarrow> NegamaxResults" where
  "NR_max x y = (if NR_gt y x then y else x)"

definition NR_neg :: "NegamaxResults \<Rightarrow> error + NegamaxResults" where
  "NR_neg x =
     (if NR_eq x NR_worst then Inl ReturnedNotImplemented
      else NegamaxResults_of_value (- NegamaxResults_value x))"

datatype NegamaxPlayers = NP_player | NP_opponent

fun NegamaxPlayers_value :: "NegamaxPlayers \<Rightarrow> int" where
  "NegamaxPlayers_value NP_player = 1"
| "NegamaxPlayers_value NP_opponent = - 1"

definition NegamaxPlayers_of_value :: "int \<Rightarrow> error + NegamaxPlayers" where
  "NegamaxPlayers_of_value x =
     (if x = 1 then Inr NP_player
      else if x = - 1 then Inr NP_opponent
      else Inl ValueError)"

definition NP_other_player :: "NegamaxPlayers \<Rightarrow> NegamaxPlayers" where
  "NP_other_player current_player =
     (if current_player = NP_player then NP_opponent else NP_player)"

text \<open>\<^verbatim>\<open>NegamaxResults(winner.value * player.value)\<close>: the value of \<^verbatim>\<open>no_win\<close> is
  \<^verbatim>\<open>None\<close>, which cannot be multiplied.\<close>

definition terminal_result :: "Results \<Rightarrow> NegamaxPlayers \<Rightarrow> error + NegamaxResults" where
  "terminal_result winner p =
     (case Results_value winner of
        None \<Rightarrow> Inl TypeError
      | Some w \<Rightarrow> NegamaxResults_of_value (w * NegamaxPlayers_value p))"

text \<open>
  \<^verbatim>\<open>_negamax\<close> works on the one board object it is given: it returns the pair of the
  source together with the board as the call leaves it. The first argument bounds the
  depth of the recursion; \<open>negamax_loop\<close> is the \<^verbatim>\<open>for child in children\<close> loop with
  its four loop variables \<open>alpha\<close>, \<open>best_value\<close>, \<open>best_move\<close> and the board.
  The flag returned by \<^verbatim>\<open>make_move\<close> and the coordinate returned by
  \<^verbatim>\<open>undo_move\<close> are dropped, as in the source.
\<close>

fun negamax ::
  "nat \<Rightarrow> Board \<Rightarrow> NegamaxPlayers \<Rightarrow> NegamaxResults \<Rightarrow> NegamaxResults \<Rightarrow>
     error + ((NegamaxResults \<times> move option) \<times> Board)"
and negamax_loop ::
  "nat \<Rightarrow> move list \<Rightarrow> Board \<Rightarrow> NegamaxPlayers \<Rightarrow> NegamaxResults \<Rightarrow> NegamaxResults \<Rightarrow>
     NegamaxResults \<Rightarrow> move option \<Rightarrow> error + ((NegamaxResults \<times> move option) \<times> Board)"
where
  "negamax 0 b p alpha beta = Inl OutOfFuel"
| "negamax (Suc n) b p alpha beta =
     bindE (check_for_win b) (\<lambda>gw.
       if fst gw then
         bindE (terminal_result (snd gw) p) (\<lambda>result. Inr ((result, None), b))
       else
         bindE (get_possible_moves b) (\<lambda>children.
           negamax_loop n children b p alpha beta NR_worst None))"
| "negamax_loop n [] b p alpha beta best_value best_move = Inr ((best_value, best_move), b)"
| "negamax_loop n (child # children) b p alpha beta best_value best_move =
     bindE (make_move b (fst child) (snd child)) (\<lambda>made.
     bindE (NR_neg beta) (\<lambda>neg_beta.
     bindE (NR_neg alpha) (\<lambda>neg_alpha.
     bindE (negamax n (snd made) (NP_other_player p) neg_beta neg_alpha) (\<lambda>res.
     bindE (NR_neg (fst (fst res))) (\<lambda>child_value.
     bindE (undo_move (snd res)) (\<lambda>undone.
       if NR_ge (NR_max alpha child_value) beta then
         Inr ((if NR_gt child_value best_value then (child_value, Some child)
               else (best_value, best_move)), snd undone)
       else
         negamax_loop n children (snd undone) p (NR_max alpha child_value) beta
           (if NR_gt child_value best_value then child_value else best_value)
           (if NR_gt child_value best_value then Some child else best_move)))))))"

text \<open>The loop of \<^verbatim>\<open>get_next_move\<close>, with loop variables \<open>best_value\<close>,
  \<open>best_moves\<close> and the board.\<close>

fun get_next_move_loop ::
  "nat \<Rightarrow> move list \<Rightarrow> Board \<Rightarrow> NegamaxPlayers \<Rightarrow> NegamaxResults \<Rightarrow> move list \<Rightarrow>
     error + ((NegamaxResults \<times> move list) \<times> Board)"
where
  "get_next_move_loop n [] b p best_value best_moves = Inr ((best_value, best_moves), b)"
| "get_next_move_loop n (child # children) b p best_value best_moves =
     bindE (make_move b (fst child) (snd child)) (\<lambda>made.
     bindE (negamax n (snd made) (NP_other_player p) NR_other_player NR_player) (\<lambda>res.
     bindE (NR_neg (fst (fst res))) (\<lambda>child_value.
     bindE (undo_move (snd res)) (\<lambda>undone.
       get_next_move_loop n children (snd undone) p
         (if NR_gt child_value best_value then child_value else best_value)
         (if NR_gt child_value best_value then [child]
          else if NR_eq child_value best_value then best_moves @ [child]
          else best_moves)))))"

text \<open>
  \<^verbatim>\<open>get_next_move\<close>. \<open>fuel\<close> bounds the depth of \<^verbatim>\<open>_negamax\<close>, and \<open>randrange\<close> stands
  for \<^verbatim>\<open>random.randrange\<close>: \<open>randrange k\<close> is the number drawn for the bound \<open>k\<close>.
  The result is the chosen move and the board as the call leaves it. The
  \<^verbatim>\<open>print\<close> before the last line has no effect on either.
\<close>

definition get_next_move ::
  "nat \<Rightarrow> (nat \<Rightarrow> nat) \<Rightarrow> Board \<Rightarrow> Players \<Rightarrow> error + (move \<times> Board)" where
  "get_next_move fuel randrange b pl =
     bindE (NegamaxPlayers_of_value (Players_value pl)) (\<lambda>p.
     bindE (get_possible_moves b) (\<lambda>children.
     bindE (get_next_move_loop fuel children b p NR_worst []) (\<lambda>res.
       if length (snd (fst res)) \<noteq> 0 then
         bindE (getitem (snd (fst res)) (int (randrange (length (snd (fst res))))))
           (\<lambda>m. Inr (m, snd res))
       else
         bindE (getitem (snd (fst res)) 0) (\<lambda>m. Inr (m, snd res)))))"

section \<open>Well-formed boards and the vocabulary of the properties\<close>

text \<open>A grid is well formed when it has three rows of three cells; a board when its
  grid is and a player is to move.\<close>

definition wf_grid :: "Players list list \<Rightarrow> bool" where
  "wf_grid g \<longleftrightarrow> length g = 3 \<and> list_all (\<lambda>r. length r = 3) g"

definition wf_board :: "Board \<Rightarrow> bool" where
  "wf_board b \<longleftrightarrow> wf_grid (board b) \<and> player b \<noteq> unplayed"

definition in_range :: "move \<Rightarrow> bool" where
  "in_range m \<longleftrightarrow> 0 \<le> fst m \<and> fst m < 3 \<and> 0 \<le> snd m \<and> snd m < 3"

text \<open>The content of an in-range cell of a well-formed grid.\<close>

definition cell :: "Board \<Rightarrow> move \<Rightarrow> Players" where
  "cell b m = board b ! nat (fst m) ! nat (snd m)"

definition empties :: "Board \<Rightarrow> nat" where
  "empties b = length (filter (\<lambda>c. c = unplayed) (concat (board b)))"

definition opponent_of :: "Players \<Rightarrow> Players" where
  "opponent_of p = (if p = player_one then player_two else player_one)"

text \<open>The eight lines in the order in which \<^verbatim>\<open>check_for_win\<close> and
  \<^verbatim>\<open>get_winning_streak\<close> test them, each with its coordinates in the order in which
  \<^verbatim>\<open>get_winning_streak\<close> lists them.\<close>

definition scan_lines :: "move list list" where
  "scan_lines =
     [[(0, 0), (1, 0), (2, 0)], [(0, 0), (0, 1), (0, 2)],
      [(0, 1), (1, 1), (2, 1)], [(1, 0), (1, 1), (1, 2)],
      [(0, 2), (1, 2), (2, 2)], [(2, 0), (2, 1), (2, 2)],
      [(0, 0), (1, 1), (2, 2)], [(2, 0), (1, 1), (0, 2)]]"

text \<open>The order the specification describes: per index the row, then the column, and
  the diagonals last.\<close>

definition spec_scan_lines :: "move list list" where
  "spec_scan_lines =
     [[(0, 0), (0, 1), (0, 2)], [(0, 0), (1, 0), (2, 0)],
      [(1, 0), (1, 1), (1, 2)], [(0, 1), (1, 1), (2, 1)],
      [(2, 0), (2, 1), (2, 2)], [(0, 2), (1, 2), (2, 2)],
      [(0, 0), (1, 1), (2, 2)], [(2, 0), (1, 1), (0, 2)]]"

definition line_total :: "Board \<Rightarrow> move list \<Rightarrow> int" where
  "line_total b l = sum_list (map (\<lambda>m. Players_value (cell b m)) l)"

definition winning_line :: "Board \<Rightarrow> move list \<Rightarrow> bool" where
  "winning_line b l \<longleftrightarrow> \<bar>line_total b l\<bar> = 3"

definition first_winning_line :: "move list list \<Rightarrow> Board \<Rightarrow> move list option" where
  "first_winning_line order b = find (winning_line b) order"

definition all_occupied :: "Board \<Rightarrow> bool" where
  "all_occupied b \<longleftrightarrow> list_all (\<lambda>m. cell b m \<noteq> unplayed) all_cells"

text \<open>The unplayed cells in row-major order.\<close>

definition legal_moves :: "Board \<Rightarrow> move list" where
  "legal_moves b = filter (\<lambda>m. cell b m = unplayed) all_cells"

text \<open>A run of \<^verbatim>\<open>make_move\<close> calls that all return \<^verbatim>\<open>True\<close>: the board they lead
  to, or \<open>None\<close> when one of them raises or returns \<^verbatim>\<open>False\<close>.\<close>

fun make_moves :: "Board \<Rightarrow> move list \<Rightarrow> Board option" where
  "make_moves b [] = Some b"
| "make_moves b (m # ms) =
     (case make_move b (fst m) (snd m) of
        Inr (True, b') \<Rightarrow> make_moves b' ms
      | _ \<Rightarrow> None)"

text \<open>The winner that \<^verbatim>\<open>check_for_win\<close> reports for a line of total \<open>3\<close> or \<open>- 3\<close>.\<close>

definition line_result :: "int \<Rightarrow> Results" where
  "line_result t = (if t = 3 then player_one_win else player_two_win)"

definition win_of :: "Players \<Rightarrow> Results" where
  "win_of pl = (if pl = player_one then player_one_win else player_two_win)"

text \<open>A move wins immediately for \<open>pl\<close> when \<^verbatim>\<open>make_move\<close> accepts it and
  \<^verbatim>\<open>check_for_win\<close> then reports the game over with \<open>pl\<close> as the winner.\<close>

definition wins_immediately :: "Board \<Rightarrow> Players \<Rightarrow> move \<Rightarrow> bool" where
  "wins_immediately b pl m =
     (case make_move b (fst m) (snd m) of
        Inr (True, b') \<Rightarrow> check_for_win b' = Inr (True, win_of pl)
      | _ \<Rightarrow> False)"

text \<open>The value that one round of the loop of \<^verbatim>\<open>get_next_move\<close> computes for a
  child: the negated result of \<^verbatim>\<open>_negamax\<close> on the board after the move.\<close>

definition move_value :: "nat \<Rightarrow> Board \<Rightarrow> NegamaxPlayers \<Rightarrow> move \<Rightarrow> error + NegamaxResults" where
  "move_value n b p child =
     bindE (make_move b (fst child) (snd child)) (\<lambda>made.
     bindE (negamax n (snd made) (NP_other_player p) NR_other_player NR_player) (\<lambda>res.
       NR_neg (fst (fst res))))"

text \<open>What \<^verbatim>\<open>random.randrange(k)\<close> guarantees of the number it draws.\<close>

definition valid_randrange :: "(nat \<Rightarrow> nat) \<Rightarrow> bool" where
  "valid_randrange randrange \<longleftrightarrow> (\<forall>k. 0 < k \<longrightarrow> randrange k < k)"

text \<open>The board after a move has been made on it.\<close>

definition played :: "Board \<Rightarrow> move \<Rightarrow> Board" where
  "played b m = (case make_move b (fst m) (snd m) of Inr (ok, b') \<Rightarrow> b' | Inl e \<Rightarrow> b)"

text \<open>
  What it means that \<open>pl\<close> can force a win from a position, in terms of the game alone:
  the game is over and \<open>pl\<close> has won; or \<open>pl\<close> is to move and some move leads to
  such a position; or the other player is to move and every move leads to such a
  position. The first argument bounds the number of positions on a line of play.
\<close>

fun forces_win :: "nat \<Rightarrow> Board \<Rightarrow> Players \<Rightarrow> bool" where
  "forces_win 0 b pl = False"
| "forces_win (Suc n) b pl =
     (case check_for_win b of
        Inr (game_over, winner) \<Rightarrow>
          if game_over then winner = win_of pl
          else if player b = pl then list_ex (\<lambda>m. forces_win n (played b m) pl) (legal_moves b)
          else list_all (\<lambda>m. forces_win n (played b m) pl) (legal_moves b)
      | Inl e \<Rightarrow> False)"

text \<open>The player whom a member of \<^verbatim>\<open>NegamaxPlayers\<close> stands for in
  \<^verbatim>\<open>get_next_move\<close>: the member with the same value.\<close>

definition player_of :: "NegamaxPlayers \<Rightarrow> Players" where
  "player_of p = (if p = NP_player then player_one else player_two)"

text \<open>
  The value of a position for the player to move under full-width negamax, without
  bounds and without cutoff: the terminal value, or the largest negated value of a
  child. It is the yardstick for the values that \<^verbatim>\<open>_negamax\<close> returns.
\<close>

fun exact_value :: "nat \<Rightarrow> Board \<Rightarrow> NegamaxPlayers \<Rightarrow> int" where
  "exact_value 0 b p = 0"
| "exact_value (Suc n) b p =
     (case check_for_win b of
        Inr (game_over, winner) \<Rightarrow>
          if game_over then
            (case Results_value winner of
               Some w \<Rightarrow> w * NegamaxPlayers_value p
             | None \<Rightarrow> 0)
          else
            fold (\<lambda>m best. max best (- exact_value n (played b m) (NP_other_player p)))
              (legal_moves b) (- 100)
      | Inl e \<Rightarrow> 0)"

text \<open>
  What a value \<open>r\<close> returned for the bounds \<open>a < c\<close> says about the exact value
  \<open>t\<close>: at or below \<open>a\<close> it is an upper bound, at or above \<open>c\<close> a lower bound,
  and in between it is exact.
\<close>

definition within_bounds :: "int \<Rightarrow> int \<Rightarrow> int \<Rightarrow> int \<Rightarrow> bool" where
  "within_bounds a c r t \<longleftrightarrow>
     (r \<le> a \<longrightarrow> t \<le> r) \<and> (a < r \<and> r < c \<longrightarrow> t = r) \<and> (c \<le> r \<longrightarrow> r \<le> t)"

section \<open>Example positions\<close>

text \<open>A drawn game: all nine cells are taken and no line is complete.\<close>

definition full_board :: Board where
  "full_board =
     \<lparr> player = player_two,
       moves = [(0, 0), (0, 1), (0, 2), (1, 1), (1, 0), (1, 2), (2, 1), (2, 0), (2, 2)],
       board = [[player_one, player_two, player_one],
                [player_one, player_two, player_two],
                [player_two, player_one, player_one]] \<rparr>"

text \<open>Player one is to move and wins at once at \<open>(2, 0)\<close> or \<open>(2, 2)\<close>; the move
  \<open>(0, 2)\<close> wins nothing at once, but after it player two cannot stop both.\<close>

definition forced_win_board :: Board where
  "forced_win_board =
     \<lparr> player = player_one,
       moves = [(0, 0), (0, 1), (1, 0), (1, 2), (1, 1), (2, 1)],
       board = [[player_one, player_two, unplayed],
                [player_one, player_one, player_two],
                [unplayed, player_two, unplayed]] \<rparr>"

text \<open>Six calls of \<^verbatim>\<open>make_move\<close> from the empty board, which never looks at the
  result of the game: a full row of each player.\<close>

definition double_win_board :: Board where
  "double_win_board =
     \<lparr> player = player_one,
       moves = [(0, 0), (1, 0), (0, 1), (1, 1), (0, 2), (1, 2)],
       board = [[player_one, player_one, player_one],
                [player_two, player_two, player_two],
                [unplayed, unplayed, unplayed]] \<rparr>"

text \<open>The end of a game in which the ninth move, at \<open>(0, 0)\<close>, completes row 0 and
  column 0 of player one together.\<close>

definition corner_win_board :: Board where
  "corner_win_board =
     \<lparr> player = player_two,
       moves = [(0, 1), (1, 1), (0, 2), (1, 2), (1, 0), (2, 1), (2, 0), (2, 2), (0, 0)],
       board = [[player_one, player_one, player_one],
                [player_one, player_two, player_two],
                [player_one, player_two, player_two]] \<rparr>"

section \<open>Failures and indexing\<close>

lemma bindE_Inr [simp]: "bindE (Inr x) f = f x"
  by (simp add: bindE_def)

lemma bindE_Inl [simp]: "bindE (Inl e) f = Inl e"
  by (simp add: bindE_def)

lemma bindE_Inr_iff: "bindE m f = Inr y \<longleftrightarrow> (\<exists>x. m = Inr x \<and> f x = Inr y)"
  by (cases m) simp_all

lemma norm_index_in: "0 \<le> i \<Longrightarrow> i < int n \<Longrightarrow> norm_index n i = Inr (nat i)"
  by (simp add: norm_index_def)

lemma getitem_valid:
  assumes "valid_randrange randrange" "xs \<noteq> []"
  shows "getitem xs (int (randrange (length xs))) = Inr (xs ! randrange (length xs))"
    and "randrange (length xs) < length xs"
  using assms by (simp_all add: valid_randrange_def getitem_def norm_index_def)

lemma getitem_member: "getitem xs i = Inr x \<Longrightarrow> x \<in> set xs"
  by (auto simp: getitem_def norm_index_def Let_def bindE_def split: if_splits)

lemma getitem_cases:
  obtains (missing) "getitem xs i = Inl IndexError" | (found) x where "getitem xs i = Inr x"
  by (cases "norm_index (length xs) i") (auto simp: getitem_def norm_index_def Let_def split: if_splits)

section \<open>Cells of a well-formed grid\<close>

lemma wf_grid_row: "wf_grid g \<Longrightarrow> j < 3 \<Longrightarrow> length (g ! j) = 3"
  by (simp add: wf_grid_def list_all_length)

lemma wf_grid_explicit:
  assumes "wf_grid g"
  obtains a0 a1 a2 a3 a4 a5 a6 a7 a8
  where "g = [[a0, a1, a2], [a3, a4, a5], [a6, a7, a8]]"
proof -
  from assms obtain r0 r1 r2 where g: "g = [r0, r1, r2]"
    by (auto simp: wf_grid_def length_Suc_conv numeral_3_eq_3)
  with assms have "length r0 = 3" "length r1 = 3" "length r2 = 3"
    by (simp_all add: wf_grid_def)
  then obtain a0 a1 a2 a3 a4 a5 a6 a7 a8
    where "r0 = [a0, a1, a2]" "r1 = [a3, a4, a5]" "r2 = [a6, a7, a8]"
    by (auto simp: length_Suc_conv numeral_3_eq_3)
  with g that show thesis by blast
qed

lemma in_range_nat: "in_range (r, c) \<Longrightarrow> nat r < 3 \<and> nat c < 3"
  unfolding in_range_def by auto

lemma all_cells_in_range: "m \<in> set all_cells \<Longrightarrow> in_range m"
  by (auto simp: all_cells_def in_range_def)

lemma get_cell_wf:
  assumes "wf_grid g" "in_range (r, c)"
  shows "get_cell g r c = Inr (g ! nat r ! nat c)"
proof -
  from assms have "nat r < 3" by (simp add: in_range_nat)
  with assms have "length (g ! nat r) = 3" by (simp add: wf_grid_row)
  moreover from assms have "length g = 3" by (simp add: wf_grid_def)
  ultimately show ?thesis using assms(2)
    by (simp add: get_cell_def getitem_def in_range_def norm_index_in)
qed

lemma set_cell_wf:
  assumes "wf_grid g" "in_range (r, c)"
  shows "set_cell g r c v = Inr (g[nat r := (g ! nat r)[nat c := v]])"
proof -
  from assms have "nat r < 3" by (simp add: in_range_nat)
  with assms have "length (g ! nat r) = 3" by (simp add: wf_grid_row)
  moreover from assms have "length g = 3" by (simp add: wf_grid_def)
  ultimately show ?thesis using assms(2)
    by (simp add: set_cell_def setitem_def in_range_def norm_index_in)
qed

lemma wf_grid_update:
  assumes "wf_grid g" "in_range (r, c)"
  shows "wf_grid (g[nat r := (g ! nat r)[nat c := v]])"
proof -
  from assms have r: "nat r < 3" by (simp add: in_range_nat)
  with assms have "length (g ! nat r) = 3" by (simp add: wf_grid_row)
  with assms(1) r show ?thesis
    by (auto simp: wf_grid_def list_all_length nth_list_update)
qed

lemma cell_update:
  assumes "wf_grid (board b)" "in_range (r, c)" "in_range m"
  shows "(board b)[nat r := (board b ! nat r)[nat c := v]] ! nat (fst m) ! nat (snd m) =
     (if m = (r, c) then v else cell b m)"
proof -
  obtain r' c' where m: "m = (r', c')" by (cases m)
  from assms(2) have r: "nat r < 3" "nat c < 3" "0 \<le> r" "0 \<le> c"
    by (simp_all add: in_range_nat) (simp_all add: in_range_def)
  from assms(3) m have r': "nat r' < 3" "nat c' < 3" "0 \<le> r'" "0 \<le> c'"
    by (simp_all add: in_range_nat) (simp_all add: in_range_def)
  from assms(1) have len: "length (board b) = 3" "length (board b ! nat r) = 3"
    using r(1) by (simp_all add: wf_grid_def wf_grid_row)
  from r r' have eq: "nat r = nat r' \<longleftrightarrow> r = r'" "nat c = nat c' \<longleftrightarrow> c = c'"
    by auto
  show ?thesis
    using len r r' eq by (auto simp: m cell_def nth_list_update)
qed

section \<open>Moves and their undoing\<close>

lemma other_player_wf: "p \<noteq> unplayed \<Longrightarrow> other_player p = Inr (opponent_of p)"
  by (simp add: other_player_def opponent_of_def)

lemma other_player_Inr: "other_player p = Inr q \<longleftrightarrow> p \<noteq> unplayed \<and> q = opponent_of p"
  by (auto simp: other_player_def opponent_of_def)

lemma opponent_of_not_unplayed [simp]: "opponent_of p \<noteq> unplayed"
  by (simp add: opponent_of_def)

lemma opponent_of_twice: "p \<noteq> unplayed \<Longrightarrow> opponent_of (opponent_of p) = p"
  by (cases p) (simp_all add: opponent_of_def)

lemma opponent_of_differs: "p \<noteq> unplayed \<Longrightarrow> opponent_of p \<noteq> p"
  by (cases p) (simp_all add: opponent_of_def)

lemma make_move_wf:
  assumes "wf_board b" "in_range (r, c)"
  shows "make_move b r c =
     (if cell b (r, c) = unplayed
      then Inr (True, b\<lparr>board := (board b)[nat r := (board b ! nat r)[nat c := player b]],
                         moves := moves b @ [(r, c)],
                         player := opponent_of (player b)\<rparr>)
      else Inr (False, b))"
  using assms
  by (simp add: make_move_def wf_board_def get_cell_wf set_cell_wf other_player_wf cell_def)

lemma undo_make_move:
  assumes "wf_board b" "in_range (r, c)" "cell b (r, c) = unplayed"
    and "make_move b r c = Inr (ok, b')"
  shows "undo_move b' = Inr (Some (r, c), b)"
proof -
  let ?g = "(board b)[nat r := (board b ! nat r)[nat c := player b]]"
  from assms have b': "b' = b\<lparr>board := ?g, moves := moves b @ [(r, c)],
      player := opponent_of (player b)\<rparr>"
    by (simp add: make_move_wf)
  from assms have wfg: "wf_grid ?g" by (simp add: wf_board_def wf_grid_update)
  from assms have len: "nat r < length (board b)"
    by (simp add: wf_board_def wf_grid_def in_range_nat)
  have restored: "?g[nat r := (?g ! nat r)[nat c := unplayed]] = board b"
  proof -
    have "board b ! nat r ! nat c = unplayed" using assms(3) by (simp add: cell_def)
    then have "(board b ! nat r)[nat c := unplayed] = board b ! nat r"
      by (metis list_update_id)
    with len show ?thesis by simp
  qed
  from assms(1) have "opponent_of (opponent_of (player b)) = player b"
    by (simp add: wf_board_def opponent_of_twice)
  then show ?thesis
    using wfg assms(2) restored
    by (simp add: undo_move_def b' set_cell_wf other_player_wf)
qed

lemma make_move_True_player:
  assumes "make_move b row column = Inr (True, b')"
  shows "player b \<noteq> unplayed \<and> player b' = opponent_of (player b)"
  using assms
  by (auto simp: make_move_def bindE_Inr_iff other_player_Inr split: if_splits)

lemma undo_move_Some_player:
  assumes "undo_move b = Inr (Some m, b')"
  shows "player b \<noteq> unplayed \<and> player b' = opponent_of (player b)"
  using assms
  by (auto simp: undo_move_def bindE_Inr_iff other_player_Inr split: if_splits prod.splits)

lemma make_moves_player:
  "make_moves b ms = Some b' \<Longrightarrow> player b \<noteq> unplayed \<Longrightarrow>
     player b' = (if even (length ms) then player b else opponent_of (player b))"
proof (induction ms arbitrary: b)
  case Nil
  then show ?case by simp
next
  case (Cons m ms)
  from Cons.prems(1) obtain b1
    where mk: "make_move b (fst m) (snd m) = Inr (True, b1)" and rest: "make_moves b1 ms = Some b'"
    by (auto split: sum.splits bool.splits prod.splits)
  from mk have p1: "player b1 = opponent_of (player b)" by (simp add: make_move_True_player)
  then have "player b1 \<noteq> unplayed" by simp
  with Cons.IH [OF rest] p1 Cons.prems(2) show ?case
    by (simp add: opponent_of_twice)
qed

lemma make_moves_double_win:
  "make_moves Board_init [(0, 0), (1, 0), (0, 1), (1, 1), (0, 2), (1, 2)] = Some double_win_board"
  by (simp add: Board_init_def double_win_board_def make_move_def get_cell_def set_cell_def
      getitem_def setitem_def norm_index_def other_player_def)

section \<open>The unplayed cells\<close>

lemma possible_moves_loop_wf:
  assumes "wf_grid g" "\<forall>m\<in>set cs. in_range m"
  shows "possible_moves_loop g cs acc =
     Inr (acc @ filter (\<lambda>m. g ! nat (fst m) ! nat (snd m) = unplayed) cs)"
  using assms(2)
proof (induction cs arbitrary: acc)
  case Nil
  then show ?case by simp
next
  case (Cons m cs)
  obtain r c where m: "m = (r, c)" by (cases m)
  with Cons.prems have "in_range (r, c)" by simp
  with assms(1) have "get_cell g r c = Inr (g ! nat r ! nat c)" by (rule get_cell_wf)
  with Cons m show ?case by simp
qed

lemma get_possible_moves_wf:
  assumes "wf_grid (board b)"
  shows "get_possible_moves b = Inr (legal_moves b)"
proof -
  have "\<forall>m\<in>set all_cells. in_range m" by (simp add: all_cells_in_range)
  with assms show ?thesis
    by (simp add: get_possible_moves_def legal_moves_def cell_def possible_moves_loop_wf)
qed

lemma board_full_loop_wf:
  assumes "wf_grid g" "\<forall>m\<in>set cs. in_range m"
  shows "board_full_loop g cs full =
     Inr (full \<and> list_all (\<lambda>m. g ! nat (fst m) ! nat (snd m) \<noteq> unplayed) cs)"
  using assms(2)
proof (induction cs arbitrary: full)
  case Nil
  then show ?case by simp
next
  case (Cons m cs)
  obtain r c where m: "m = (r, c)" by (cases m)
  with Cons.prems have "in_range (r, c)" by simp
  with assms(1) have "get_cell g r c = Inr (g ! nat r ! nat c)" by (rule get_cell_wf)
  with Cons m show ?case by auto
qed

lemma board_full_wf:
  assumes "wf_grid (board b)"
  shows "board_full b = Inr (all_occupied b)"
proof -
  have "\<forall>m\<in>set all_cells. in_range m" by (simp add: all_cells_in_range)
  with assms show ?thesis
    by (simp add: board_full_def all_occupied_def cell_def board_full_loop_wf)
qed

lemma all_occupied_legal_moves: "all_occupied b \<longleftrightarrow> legal_moves b = []"
  by (auto simp: all_occupied_def legal_moves_def list_all_iff filter_empty_conv)

lemma legal_moves_iff: "m \<in> set (legal_moves b) \<longleftrightarrow> m \<in> set all_cells \<and> cell b m = unplayed"
  by (auto simp: legal_moves_def)

lemma empties_le_9: "wf_grid (board b) \<Longrightarrow> empties b \<le> 9"
proof -
  assume "wf_grid (board b)"
  then obtain a0 a1 a2 a3 a4 a5 a6 a7 a8
    where "board b = [[a0, a1, a2], [a3, a4, a5], [a6, a7, a8]]"
    by (rule wf_grid_explicit)
  then have "length (concat (board b)) = 9" by simp
  moreover have "empties b \<le> length (concat (board b))"
    unfolding empties_def by (rule length_filter_le)
  ultimately show ?thesis by simp
qed

lemma filter_update_count:
  "i < length xs \<Longrightarrow> P (xs ! i) \<Longrightarrow> \<not> P v \<Longrightarrow>
     Suc (length (filter P (xs[i := v]))) = length (filter P xs)"
proof (induction xs arbitrary: i)
  case Nil
  then show ?case by simp
next
  case (Cons x xs)
  then show ?case by (cases i) simp_all
qed

lemma concat_update_count:
  "j < length g \<Longrightarrow> Suc (length (filter P r)) = length (filter P (g ! j)) \<Longrightarrow>
     Suc (length (filter P (concat (g[j := r])))) = length (filter P (concat g))"
proof (induction g arbitrary: j)
  case Nil
  then show ?case by simp
next
  case (Cons x g)
  then show ?case by (cases j) simp_all
qed

lemma empties_update:
  assumes "wf_grid (board b)" "in_range (r, c)" "cell b (r, c) = unplayed" "v \<noteq> unplayed"
  shows "Suc (empties (b\<lparr>board := (board b)[nat r := (board b ! nat r)[nat c := v]],
      moves := ms, player := p\<rparr>)) = empties b"
proof -
  from assms(2) have r: "nat r < 3" and c: "nat c < 3" by (simp_all add: in_range_nat)
  from assms(1) r have len: "nat r < length (board b)" "nat c < length (board b ! nat r)"
    using c by (simp_all add: wf_grid_def wf_grid_row)
  from assms(3) have "board b ! nat r ! nat c = unplayed" by (simp add: cell_def)
  with len(2) assms(4)
  have "Suc (length (filter (\<lambda>x. x = unplayed) ((board b ! nat r)[nat c := v]))) =
      length (filter (\<lambda>x. x = unplayed) (board b ! nat r))"
    by (intro filter_update_count) simp_all
  with len(1) show ?thesis
    by (simp add: empties_def concat_update_count)
qed

lemma make_move_legal:
  assumes "wf_board b" "m \<in> set (legal_moves b)"
  obtains b1 where "make_move b (fst m) (snd m) = Inr (True, b1)" "wf_board b1"
    "Suc (empties b1) = empties b" "undo_move b1 = Inr (Some m, b)"
    "player b1 = opponent_of (player b)"
proof -
  obtain r c where m: "m = (r, c)" by (cases m)
  from assms(2) have rng: "in_range (r, c)" and free: "cell b (r, c) = unplayed"
    by (simp_all add: legal_moves_iff all_cells_in_range m)
  let ?b1 = "b\<lparr>board := (board b)[nat r := (board b ! nat r)[nat c := player b]],
                 moves := moves b @ [(r, c)], player := opponent_of (player b)\<rparr>"
  from assms(1) rng free have mk: "make_move b r c = Inr (True, ?b1)"
    by (simp add: make_move_wf)
  moreover from assms(1) rng have "wf_board ?b1"
    by (simp add: wf_board_def wf_grid_update)
  moreover from assms(1) rng free have "Suc (empties ?b1) = empties b"
    by (simp add: wf_board_def empties_update)
  moreover from assms(1) rng free mk have "undo_move ?b1 = Inr (Some (r, c), b)"
    by (rule undo_make_move)
  ultimately show thesis using that [of ?b1] m by simp
qed

section \<open>The scan for a complete line\<close>

lemma sum3_wf:
  assumes "wf_grid (board b)" "in_range c1" "in_range c2" "in_range c3"
  shows "sum3 (board b) c1 c2 c3 = Inr (line_total b [c1, c2, c3])"
proof -
  have "cell_value (board b) m = Inr (Players_value (cell b m))" if "in_range m" for m
    using that assms(1) get_cell_wf [of "board b" "fst m" "snd m"]
    by (simp add: cell_value_def cell_def)
  with assms show ?thesis by (simp add: sum3_def line_total_def)
qed

lemma Results_of_line:
  "\<bar>t\<bar> = 3 \<Longrightarrow> Results_of_value (t div 3) = Inr (line_result t)"
  by (auto simp: Results_of_value_def line_result_def abs_if split: if_splits)

lemma check_rows_columns_wf:
  assumes "wf_grid (board b)"
  shows "check_rows_columns (board b) [0, 1, 2] =
     Inr (map_option (\<lambda>l. line_result (line_total b l)) (find (winning_line b) (take 6 scan_lines)))"
  using assms
  apply (simp add: sum3_wf in_range_def winning_line_def scan_lines_def Results_of_line
      max_line_sum_def split del: if_split cong: if_cong)
  apply simp
  done

lemma find_append_list:
  "find P (xs @ ys) = (case find P xs of Some x \<Rightarrow> Some x | None \<Rightarrow> find P ys)"
  by (induction xs) simp_all

lemma streak_rows_columns_wf:
  assumes "wf_grid (board b)"
  shows "streak_rows_columns (board b) [0, 1, 2] =
     Inr (find (winning_line b) (take 6 scan_lines))"
  using assms
  apply (simp add: sum3_wf in_range_def winning_line_def scan_lines_def
      max_line_sum_def split del: if_split cong: if_cong)
  apply simp
  done

lemma check_for_win_scan:
  assumes "wf_grid (board b)"
  shows "check_for_win b =
     Inr (case first_winning_line scan_lines b of
            Some l \<Rightarrow> (True, line_result (line_total b l))
          | None \<Rightarrow> if all_occupied b then (True, tie) else (False, no_win))"
proof -
  have split_scan: "scan_lines = take 6 scan_lines @ [[(0, 0), (1, 1), (2, 2)], [(2, 0), (1, 1), (0, 2)]]"
    by (simp add: scan_lines_def)
  show ?thesis
  proof (cases "find (winning_line b) (take 6 scan_lines)")
    case (Some l)
    then have "first_winning_line scan_lines b = Some l"
      unfolding first_winning_line_def by (subst split_scan) (simp add: find_append_list)
    with Some show ?thesis
      unfolding check_for_win_def check_rows_columns_wf [OF assms] by simp
  next
    case None
    then have "first_winning_line scan_lines b =
        find (winning_line b) [[(0, 0), (1, 1), (2, 2)], [(2, 0), (1, 1), (0, 2)]]"
      unfolding first_winning_line_def by (subst split_scan) (simp add: find_append_list)
    with None assms show ?thesis
      unfolding check_for_win_def check_rows_columns_wf [OF assms]
      by (simp add: sum3_wf in_range_def winning_line_def Results_of_line max_line_sum_def
          board_full_wf)
  qed
qed

lemma get_winning_streak_scan:
  assumes "wf_grid (board b)"
  shows "get_winning_streak b =
     Inr (case first_winning_line scan_lines b of Some l \<Rightarrow> l | None \<Rightarrow> [])"
proof -
  have split_scan: "scan_lines = take 6 scan_lines @ [[(0, 0), (1, 1), (2, 2)], [(2, 0), (1, 1), (0, 2)]]"
    by (simp add: scan_lines_def)
  show ?thesis
  proof (cases "find (winning_line b) (take 6 scan_lines)")
    case (Some l)
    then have "first_winning_line scan_lines b = Some l"
      unfolding first_winning_line_def by (subst split_scan) (simp add: find_append_list)
    with Some show ?thesis
      unfolding get_winning_streak_def streak_rows_columns_wf [OF assms] by simp
  next
    case None
    then have "first_winning_line scan_lines b =
        find (winning_line b) [[(0, 0), (1, 1), (2, 2)], [(2, 0), (1, 1), (0, 2)]]"
      unfolding first_winning_line_def by (subst split_scan) (simp add: find_append_list)
    with None assms show ?thesis
      unfolding get_winning_streak_def streak_rows_columns_wf [OF assms]
      by (simp add: sum3_wf in_range_def winning_line_def max_line_sum_def)
  qed
qed

lemma first_winning_line_Some:
  "first_winning_line order b = Some l \<Longrightarrow> l \<in> set order \<and> \<bar>line_total b l\<bar> = 3"
  unfolding first_winning_line_def winning_line_def
  by (auto simp: find_Some_iff)

lemma first_winning_line_None:
  "first_winning_line order b = None \<longleftrightarrow> (\<forall>l\<in>set order. \<bar>line_total b l\<bar> \<noteq> 3)"
  unfolding first_winning_line_def winning_line_def
  by (auto simp: find_None_iff)

lemma check_for_win_outcome:
  assumes "wf_grid (board b)"
  obtains (over) w where "check_for_win b = Inr (True, w)" "w \<noteq> no_win"
  | (playing) "check_for_win b = Inr (False, no_win)" "legal_moves b \<noteq> []"
proof (cases "first_winning_line scan_lines b")
  case None
  show ?thesis
  proof (cases "all_occupied b")
    case True
    with None assms have "check_for_win b = Inr (True, tie)"
      by (simp add: check_for_win_scan)
    then show ?thesis by (rule over) simp
  next
    case False
    with None assms have "check_for_win b = Inr (False, no_win)"
      by (simp add: check_for_win_scan)
    moreover from False have "legal_moves b \<noteq> []"
      by (simp add: all_occupied_legal_moves)
    ultimately show ?thesis by (rule playing)
  qed
next
  case (Some l)
  with assms have "check_for_win b = Inr (True, line_result (line_total b l))"
    by (simp add: check_for_win_scan)
  then show ?thesis by (rule over) (simp add: line_result_def)
qed

lemma full_board_facts:
  "wf_grid (board full_board)" "all_occupied full_board"
  "\<not> (\<exists>l\<in>set scan_lines. \<bar>line_total full_board l\<bar> = 3)"
  by (simp_all add: wf_grid_def full_board_def all_occupied_def all_cells_def cell_def
      scan_lines_def line_total_def)

lemma corner_win_lines:
  "wf_grid (board corner_win_board)"
  "(\<exists>l\<in>set scan_lines. line_total corner_win_board l = 3) \<and>
   \<not> (\<exists>l\<in>set scan_lines. line_total corner_win_board l = - 3)"
  by (simp_all add: wf_grid_def corner_win_board_def cell_def scan_lines_def line_total_def)

lemma forced_win_board_lines:
  "wf_grid (board forced_win_board)"
  "\<not> (\<exists>l\<in>set scan_lines. \<bar>line_total forced_win_board l\<bar> = 3) \<and>
   \<not> all_occupied forced_win_board"
  by (simp_all add: wf_grid_def forced_win_board_def all_occupied_def all_cells_def cell_def
      scan_lines_def line_total_def)

lemma double_win_lines:
  "wf_grid (board double_win_board)"
  "first_winning_line scan_lines double_win_board = Some [(0, 0), (0, 1), (0, 2)]"
  "line_total double_win_board [(0, 0), (0, 1), (0, 2)] = 3"
  "line_total double_win_board [(1, 0), (1, 1), (1, 2)] = - 3"
  by (simp_all add: wf_grid_def first_winning_line_def scan_lines_def winning_line_def
      line_total_def cell_def double_win_board_def)

lemma corner_win_facts:
  "wf_grid (board corner_win_board)"
  "first_winning_line scan_lines corner_win_board = Some [(0, 0), (1, 0), (2, 0)]"
  "first_winning_line spec_scan_lines corner_win_board = Some [(0, 0), (0, 1), (0, 2)]"
  "line_total corner_win_board [(0, 0), (1, 0), (2, 0)] = 3"
  by (simp_all add: wf_grid_def first_winning_line_def scan_lines_def spec_scan_lines_def
      winning_line_def line_total_def cell_def corner_win_board_def)

section \<open>The claims about the board\<close>

text \<open>
  Claim C4, amended. \<^verbatim>\<open>check_for_win\<close> reports a win of player one when some line
  sums to \<open>3\<close> and none to \<open>- 3\<close>, a win of player two when some line sums to
  \<open>- 3\<close> and none to \<open>3\<close>, a tie when no line is complete and all cells are taken,
  and no result otherwise. When lines of both players are complete, the first complete
  line in the scan order decides: whenever there is a complete line, the result is the
  win of the owner of the first one.
\<close>

theorem check_for_win_cases:
  assumes "wf_grid (board b)"
  shows "((\<exists>l\<in>set scan_lines. line_total b l = 3) \<and> \<not> (\<exists>l\<in>set scan_lines. line_total b l = - 3)
            \<longrightarrow> check_for_win b = Inr (True, player_one_win)) \<and>
         ((\<exists>l\<in>set scan_lines. line_total b l = - 3) \<and> \<not> (\<exists>l\<in>set scan_lines. line_total b l = 3)
            \<longrightarrow> check_for_win b = Inr (True, player_two_win)) \<and>
         (\<not> (\<exists>l\<in>set scan_lines. \<bar>line_total b l\<bar> = 3) \<and> all_occupied b
            \<longrightarrow> check_for_win b = Inr (True, tie)) \<and>
         (\<not> (\<exists>l\<in>set scan_lines. \<bar>line_total b l\<bar> = 3) \<and> \<not> all_occupied b
            \<longrightarrow> check_for_win b = Inr (False, no_win)) \<and>
         (\<forall>l. first_winning_line scan_lines b = Some l
            \<longrightarrow> check_for_win b =
                 Inr (True, if line_total b l = 3 then player_one_win else player_two_win))"
proof (intro conjI impI allI)
  fix l
  assume "first_winning_line scan_lines b = Some l"
  with assms
  show "check_for_win b = Inr (True, if line_total b l = 3 then player_one_win else player_two_win)"
    by (simp add: check_for_win_scan line_result_def)
next
  assume h: "(\<exists>l\<in>set scan_lines. line_total b l = 3) \<and> \<not> (\<exists>l\<in>set scan_lines. line_total b l = - 3)"
  then obtain l0 where "l0 \<in> set scan_lines" "\<bar>line_total b l0\<bar> = 3" by force
  then have "first_winning_line scan_lines b \<noteq> None"
    unfolding first_winning_line_None by blast
  then obtain l where l: "first_winning_line scan_lines b = Some l" by blast
  then have "l \<in> set scan_lines" "\<bar>line_total b l\<bar> = 3"
    by (simp_all add: first_winning_line_Some)
  with h have "line_total b l = 3" by (auto simp: abs_if split: if_splits)
  with l assms show "check_for_win b = Inr (True, player_one_win)"
    by (simp add: check_for_win_scan line_result_def)
next
  assume h: "(\<exists>l\<in>set scan_lines. line_total b l = - 3) \<and> \<not> (\<exists>l\<in>set scan_lines. line_total b l = 3)"
  then obtain l0 where "l0 \<in> set scan_lines" "\<bar>line_total b l0\<bar> = 3" by force
  then have "first_winning_line scan_lines b \<noteq> None"
    unfolding first_winning_line_None by blast
  then obtain l where l: "first_winning_line scan_lines b = Some l" by blast
  then have "l \<in> set scan_lines" "\<bar>line_total b l\<bar> = 3"
    by (simp_all add: first_winning_line_Some)
  with h have "line_total b l \<noteq> 3" by auto
  with l assms show "check_for_win b = Inr (True, player_two_win)"
    by (simp add: check_for_win_scan line_result_def)
next
  assume "\<not> (\<exists>l\<in>set scan_lines. \<bar>line_total b l\<bar> = 3) \<and> all_occupied b"
  then have "first_winning_line scan_lines b = None" "all_occupied b"
    by (simp_all add: first_winning_line_None)
  with assms show "check_for_win b = Inr (True, tie)"
    by (simp add: check_for_win_scan)
next
  assume "\<not> (\<exists>l\<in>set scan_lines. \<bar>line_total b l\<bar> = 3) \<and> \<not> all_occupied b"
  then have "first_winning_line scan_lines b = None" "\<not> all_occupied b"
    by (simp_all add: first_winning_line_None)
  with assms show "check_for_win b = Inr (False, no_win)"
    by (simp add: check_for_win_scan)
qed

theorem check_for_win_cases_witness:
  "wf_grid (board full_board) \<and> all_occupied full_board \<and>
   \<not> (\<exists>l\<in>set scan_lines. \<bar>line_total full_board l\<bar> = 3) \<and>
   check_for_win full_board = Inr (True, tie) \<and>
   wf_grid (board corner_win_board) \<and>
   (\<exists>l\<in>set scan_lines. line_total corner_win_board l = 3) \<and>
   \<not> (\<exists>l\<in>set scan_lines. line_total corner_win_board l = - 3) \<and>
   check_for_win corner_win_board = Inr (True, player_one_win) \<and>
   wf_grid (board forced_win_board) \<and>
   \<not> (\<exists>l\<in>set scan_lines. \<bar>line_total forced_win_board l\<bar> = 3) \<and>
   \<not> all_occupied forced_win_board \<and>
   check_for_win forced_win_board = Inr (False, no_win) \<and>
   wf_grid (board double_win_board) \<and>
   first_winning_line scan_lines double_win_board = Some [(0, 0), (0, 1), (0, 2)] \<and>
   line_total double_win_board [(0, 0), (0, 1), (0, 2)] = 3 \<and>
   line_total double_win_board [(1, 0), (1, 1), (1, 2)] = - 3 \<and>
   check_for_win double_win_board = Inr (True, player_one_win)"
  using check_for_win_cases [OF full_board_facts(1)] full_board_facts
    check_for_win_cases [OF corner_win_lines(1)] corner_win_lines
    check_for_win_cases [OF forced_win_board_lines(1)] forced_win_board_lines
    check_for_win_cases [OF double_win_lines(1)] double_win_lines
  by simp

text \<open>
  Claim C4 as stated fails: after six accepted moves row 0 sums to \<open>3\<close> and row 1 to
  \<open>- 3\<close>, and \<^verbatim>\<open>check_for_win\<close> reports player one, not player two.
\<close>

theorem check_for_win_double_win:
  "make_moves Board_init [(0, 0), (1, 0), (0, 1), (1, 1), (0, 2), (1, 2)] = Some double_win_board \<and>
   line_total double_win_board [(1, 0), (1, 1), (1, 2)] = - 3 \<and>
   [(1, 0), (1, 1), (1, 2)] \<in> set scan_lines \<and>
   check_for_win double_win_board = Inr (True, player_one_win)"
proof -
  have "wf_grid (board double_win_board)"
    by (simp add: wf_grid_def double_win_board_def)
  then have "check_for_win double_win_board = Inr (True, player_one_win)"
    by (simp add: check_for_win_scan)
       (simp add: first_winning_line_def scan_lines_def winning_line_def line_total_def cell_def
         double_win_board_def line_result_def)
  moreover have "line_total double_win_board [(1, 0), (1, 1), (1, 2)] = - 3"
    by (simp add: line_total_def cell_def double_win_board_def)
  ultimately show ?thesis
    using make_moves_double_win by (simp add: scan_lines_def)
qed

text \<open>
  Claim C5, amended. Both functions test, for each index, the column and then the row
  (column 0, row 0, column 1, row 1, column 2, row 2), then the two diagonals:
  \<^verbatim>\<open>get_winning_streak\<close> returns the first complete line of that order (or nothing),
  and \<^verbatim>\<open>check_for_win\<close> reports the owner of that same line.
\<close>

theorem winning_streak_scan_order:
  assumes "wf_grid (board b)"
  shows "get_winning_streak b =
           Inr (case first_winning_line scan_lines b of Some l \<Rightarrow> l | None \<Rightarrow> []) \<and>
         check_for_win b =
           Inr (case first_winning_line scan_lines b of
                  Some l \<Rightarrow> (True, if line_total b l = 3 then player_one_win else player_two_win)
                | None \<Rightarrow> if all_occupied b then (True, tie) else (False, no_win))"
  using assms
  by (simp add: get_winning_streak_scan check_for_win_scan line_result_def split: option.split)

theorem winning_streak_scan_order_witness:
  "wf_grid (board corner_win_board) \<and>
   get_winning_streak corner_win_board = Inr [(0, 0), (1, 0), (2, 0)] \<and>
   check_for_win corner_win_board = Inr (True, player_one_win)"
  using winning_streak_scan_order [OF corner_win_facts(1)] corner_win_facts by simp

text \<open>
  Claim C5 as stated fails: at the end of a game whose last move completes row 0 and
  column 0 together, the first complete line in the row-then-column order is row 0,
  and \<^verbatim>\<open>get_winning_streak\<close> returns column 0.
\<close>

theorem winning_streak_not_row_first:
  "make_moves Board_init
     [(0, 1), (1, 1), (0, 2), (1, 2), (1, 0), (2, 1), (2, 0), (2, 2), (0, 0)] =
     Some corner_win_board \<and>
   first_winning_line spec_scan_lines corner_win_board = Some [(0, 0), (0, 1), (0, 2)] \<and>
   get_winning_streak corner_win_board = Inr [(0, 0), (1, 0), (2, 0)]"
proof -
  have "make_moves Board_init
     [(0, 1), (1, 1), (0, 2), (1, 2), (1, 0), (2, 1), (2, 0), (2, 2), (0, 0)] =
     Some corner_win_board"
    by (simp add: Board_init_def corner_win_board_def make_move_def get_cell_def set_cell_def
      getitem_def setitem_def norm_index_def other_player_def)
  moreover have "get_winning_streak corner_win_board = Inr [(0, 0), (1, 0), (2, 0)]"
    using corner_win_facts by (simp add: get_winning_streak_scan)
  ultimately show ?thesis using corner_win_facts(3) by simp
qed

text \<open>
  Claim C6. On a 3 by 3 grid and for an in-range cell: when the cell is taken,
  \<^verbatim>\<open>make_move\<close> returns \<^verbatim>\<open>False\<close> and the board is the one it was given; when the
  cell is unplayed (and a player is to move) it returns \<^verbatim>\<open>True\<close>, the cell holds the
  mover's mark, every other cell is as before, the move is pushed and the turn has gone
  to the other player. There is no third outcome.
\<close>

theorem make_move_atomic:
  assumes "wf_grid (board b)" "in_range (row, column)"
  shows "(cell b (row, column) \<noteq> unplayed \<longrightarrow> make_move b row column = Inr (False, b)) \<and>
         (cell b (row, column) = unplayed \<and> player b \<noteq> unplayed \<longrightarrow>
            (\<exists>b'. make_move b row column = Inr (True, b') \<and>
               cell b' (row, column) = player b \<and>
               (\<forall>m. in_range m \<and> m \<noteq> (row, column) \<longrightarrow> cell b' m = cell b m) \<and>
               moves b' = moves b @ [(row, column)] \<and>
               player b' = opponent_of (player b) \<and> player b' \<noteq> player b))"
proof (intro conjI impI)
  assume "cell b (row, column) \<noteq> unplayed"
  with assms show "make_move b row column = Inr (False, b)"
    by (simp add: make_move_def get_cell_wf cell_def)
next
  assume h: "cell b (row, column) = unplayed \<and> player b \<noteq> unplayed"
  let ?b' = "b\<lparr>board := (board b)[nat row := (board b ! nat row)[nat column := player b]],
                 moves := moves b @ [(row, column)], player := opponent_of (player b)\<rparr>"
  from h assms have wf: "wf_board b" by (simp add: wf_board_def)
  with h assms(2) have "make_move b row column = Inr (True, ?b')"
    by (simp add: make_move_wf)
  moreover have "cell ?b' m = (if m = (row, column) then player b else cell b m)"
    if "in_range m" for m
    using cell_update [OF assms that, of "player b"] by (simp add: cell_def)
  moreover from h have "opponent_of (player b) \<noteq> player b"
    by (cases "player b") (simp_all add: opponent_of_def)
  ultimately show "\<exists>b'. make_move b row column = Inr (True, b') \<and>
               cell b' (row, column) = player b \<and>
               (\<forall>m. in_range m \<and> m \<noteq> (row, column) \<longrightarrow> cell b' m = cell b m) \<and>
               moves b' = moves b @ [(row, column)] \<and>
               player b' = opponent_of (player b) \<and> player b' \<noteq> player b"
    using assms(2) by (intro exI [of _ ?b']) simp
qed

theorem make_move_atomic_witness:
  "wf_grid (board forced_win_board) \<and> in_range (0, 2) \<and> in_range (1, 1) \<and>
   make_move forced_win_board 1 1 = Inr (False, forced_win_board) \<and>
   (\<exists>b'. make_move forced_win_board 0 2 = Inr (True, b') \<and>
      cell b' (0, 2) = player_one \<and>
      moves b' = moves forced_win_board @ [(0, 2)] \<and> player b' = player_two)"
proof -
  have wf: "wf_grid (board forced_win_board)"
    by (simp add: wf_grid_def forced_win_board_def)
  have r1: "in_range (0, 2)" and r2: "in_range (1, 1)" by (simp_all add: in_range_def)
  have c1: "cell forced_win_board (0, 2) = unplayed \<and> player forced_win_board \<noteq> unplayed"
    and c2: "cell forced_win_board (1, 1) \<noteq> unplayed"
    and p: "player forced_win_board = player_one"
    by (simp_all add: cell_def forced_win_board_def)
  from make_move_atomic [OF wf r1] make_move_atomic [OF wf r2] c1 c2 p wf r1 r2
  show ?thesis by (auto simp: opponent_of_def)
qed

text \<open>
  Claim C7. \<^verbatim>\<open>undo_move\<close> right after a successful \<^verbatim>\<open>make_move\<close> returns the
  coordinate and gives back the board as it was: the same record, so the same grid, turn
  and move stack.
\<close>

theorem undo_after_make_move:
  assumes "wf_board b" "in_range (row, column)" "cell b (row, column) = unplayed"
  shows "\<exists>b'. make_move b row column = Inr (True, b') \<and>
           undo_move b' = Inr (Some (row, column), b)"
proof -
  from assms obtain b' where mk: "make_move b row column = Inr (True, b')"
    by (simp add: make_move_wf)
  with assms have "undo_move b' = Inr (Some (row, column), b)"
    by (rule undo_make_move)
  with mk show ?thesis by blast
qed

theorem undo_after_make_move_witness:
  "wf_board forced_win_board \<and> in_range (2, 0) \<and> cell forced_win_board (2, 0) = unplayed \<and>
   (\<exists>b'. make_move forced_win_board 2 0 = Inr (True, b') \<and>
      undo_move b' = Inr (Some (2, 0), forced_win_board))"
proof -
  have wf: "wf_board forced_win_board"
    by (simp add: wf_board_def wf_grid_def forced_win_board_def)
  have r: "in_range (2, 0)" by (simp add: in_range_def)
  have c: "cell forced_win_board (2, 0) = unplayed"
    by (simp add: cell_def forced_win_board_def)
  from undo_after_make_move [OF wf r c] wf r c show ?thesis by simp
qed

text \<open>
  Claim C8. After \<open>n\<close> calls of \<^verbatim>\<open>make_move\<close> that all returned \<^verbatim>\<open>True\<close>, starting
  from the empty board, player one is to move when \<open>n\<close> is even and player two when
  it is odd; and every successful \<^verbatim>\<open>make_move\<close> and every \<^verbatim>\<open>undo_move\<close> that undoes
  a move passes the turn to the other player.
\<close>

theorem turn_alternation:
  "(make_moves Board_init ms = Some b \<longrightarrow>
      player b = (if even (length ms) then player_one else player_two)) \<and>
   (make_move b0 row column = Inr (True, b1) \<longrightarrow>
      player b1 = opponent_of (player b0) \<and> player b1 \<noteq> player b0) \<and>
   (undo_move b0 = Inr (Some m, b2) \<longrightarrow>
      player b2 = opponent_of (player b0) \<and> player b2 \<noteq> player b0)"
proof (intro conjI impI)
  assume "make_moves Board_init ms = Some b"
  from make_moves_player [OF this]
  show "player b = (if even (length ms) then player_one else player_two)"
    by (simp add: Board_init_def opponent_of_def)
next
  assume "make_move b0 row column = Inr (True, b1)"
  then have h: "player b0 \<noteq> unplayed \<and> player b1 = opponent_of (player b0)"
    by (rule make_move_True_player)
  then show "player b1 = opponent_of (player b0)" by simp
  from h show "player b1 \<noteq> player b0" by (simp add: opponent_of_differs)
next
  assume "undo_move b0 = Inr (Some m, b2)"
  then have h: "player b0 \<noteq> unplayed \<and> player b2 = opponent_of (player b0)"
    by (rule undo_move_Some_player)
  then show "player b2 = opponent_of (player b0)" by simp
  from h show "player b2 \<noteq> player b0" by (simp add: opponent_of_differs)
qed

theorem turn_alternation_witness:
  "make_moves Board_init [(0, 0), (1, 0), (0, 1), (1, 1), (0, 2), (1, 2)] = Some double_win_board \<and>
   player double_win_board = player_one \<and>
   make_move double_win_board 2 2 =
     Inr (True, double_win_board\<lparr>board := [[player_one, player_one, player_one],
                [player_two, player_two, player_two],
                [unplayed, unplayed, player_one]],
         moves := moves double_win_board @ [(2, 2)], player := player_two\<rparr>) \<and>
   undo_move double_win_board =
     Inr (Some (1, 2), double_win_board\<lparr>moves := [(0, 0), (1, 0), (0, 1), (1, 1), (0, 2)],
         board := [[player_one, player_one, player_one],
                [player_two, player_two, unplayed],
                [unplayed, unplayed, unplayed]], player := player_two\<rparr>)"
proof -
  have mk: "make_move double_win_board 2 2 =
     Inr (True, double_win_board\<lparr>board := [[player_one, player_one, player_one],
                [player_two, player_two, player_two],
                [unplayed, unplayed, player_one]],
         moves := moves double_win_board @ [(2, 2)], player := player_two\<rparr>)"
    by (simp add: double_win_board_def make_move_def get_cell_def set_cell_def
      getitem_def setitem_def norm_index_def other_player_def)
  have un: "undo_move double_win_board =
     Inr (Some (1, 2), double_win_board\<lparr>moves := [(0, 0), (1, 0), (0, 1), (1, 1), (0, 2)],
         board := [[player_one, player_one, player_one],
                [player_two, player_two, unplayed],
                [unplayed, unplayed, unplayed]], player := player_two\<rparr>)"
    by (simp add: double_win_board_def undo_move_def set_cell_def
      setitem_def norm_index_def other_player_def)
  from turn_alternation [of "[(0, 0), (1, 0), (0, 1), (1, 1), (0, 2), (1, 2)]" double_win_board
      double_win_board 2 2 _ "(1, 2)"] make_moves_double_win mk un
  show ?thesis by simp
qed

section \<open>The search on well-formed boards\<close>

lemma NR_neg_ok:
  assumes "v \<noteq> NR_worst"
  obtains v' where "NR_neg v = Inr v'" "v' \<noteq> NR_worst"
  using assms by (cases v) (simp_all add: NR_neg_def NR_eq_def NegamaxResults_of_value_def)

lemma NR_gt_worst: "v \<noteq> NR_worst \<Longrightarrow> NR_gt v NR_worst"
  by (cases v) (simp_all add: NR_gt_def)

lemma NR_max_not_worst: "a \<noteq> NR_worst \<Longrightarrow> NR_max a v \<noteq> NR_worst"
  by (cases a; cases v) (simp_all add: NR_max_def NR_gt_def)

lemma NR_value_inj: "NegamaxResults_value x = NegamaxResults_value y \<longleftrightarrow> x = y"
  by (cases x; cases y) simp_all

lemma NR_ge_player: "NR_ge v NR_player \<Longrightarrow> v = NR_player"
  by (cases v) (simp_all add: NR_ge_def)

lemma terminal_result_ok:
  assumes "w \<noteq> no_win"
  obtains v where "terminal_result w p = Inr v" "v \<noteq> NR_worst"
  using assms
  by (cases w; cases p) (simp_all add: terminal_result_def NegamaxResults_of_value_def)

lemma negamax_loop_step:
  assumes T: "\<And>b p alpha beta. wf_board b \<Longrightarrow> alpha \<noteq> NR_worst \<Longrightarrow> beta \<noteq> NR_worst \<Longrightarrow>
      (\<exists>v m. negamax n b p alpha beta = Inr ((v, m), b) \<and> v \<noteq> NR_worst) \<or>
      (negamax n b p alpha beta = Inl OutOfFuel \<and> n \<le> empties b)"
  shows "wf_board b \<Longrightarrow> alpha \<noteq> NR_worst \<Longrightarrow> beta \<noteq> NR_worst \<Longrightarrow>
      set cs \<subseteq> set (legal_moves b) \<Longrightarrow>
      (\<exists>v m. negamax_loop n cs b p alpha beta bv bm = Inr ((v, m), b) \<and>
         (v = NR_worst \<longrightarrow> bv = NR_worst \<and> cs = [])) \<or>
      (negamax_loop n cs b p alpha beta bv bm = Inl OutOfFuel \<and> n < empties b)"
proof (induction cs arbitrary: alpha bv bm)
  case Nil
  then show ?case by simp
next
  case (Cons c cs)
  from Cons.prems have legal: "c \<in> set (legal_moves b)" and rest: "set cs \<subseteq> set (legal_moves b)"
    by simp_all
  from \<open>wf_board b\<close> legal obtain b1
    where mk: "make_move b (fst c) (snd c) = Inr (True, b1)" and wf1: "wf_board b1"
      and e1: "Suc (empties b1) = empties b" and un: "undo_move b1 = Inr (Some c, b)"
    by (rule make_move_legal)
  from \<open>beta \<noteq> NR_worst\<close> obtain nb where nb: "NR_neg beta = Inr nb" "nb \<noteq> NR_worst"
    by (rule NR_neg_ok)
  from \<open>alpha \<noteq> NR_worst\<close> obtain na where na: "NR_neg alpha = Inr na" "na \<noteq> NR_worst"
    by (rule NR_neg_ok)
  from T [OF wf1 nb(2) na(2), of "NP_other_player p"]
  consider (ret) v m where "negamax n b1 (NP_other_player p) nb na = Inr ((v, m), b1)" "v \<noteq> NR_worst"
    | (fuel) "negamax n b1 (NP_other_player p) nb na = Inl OutOfFuel" "n \<le> empties b1"
    by blast
  then show ?case
  proof cases
    case fuel
    with e1 have "n < empties b" by simp
    with fuel mk nb na show ?thesis by simp
  next
    case ret
    from ret(2) obtain cv where cv: "NR_neg v = Inr cv" "cv \<noteq> NR_worst"
      by (rule NR_neg_ok)
    let ?bv = "if NR_gt cv bv then cv else bv"
    let ?bm = "if NR_gt cv bv then Some c else bm"
    have bv_ok: "?bv \<noteq> NR_worst" using cv(2) by (auto simp: NR_gt_worst)
    show ?thesis
    proof (cases "NR_ge (NR_max alpha cv) beta")
      case True
      with mk nb na ret cv un
      have "negamax_loop n (c # cs) b p alpha beta bv bm = Inr ((?bv, ?bm), b)"
        by simp
      with bv_ok show ?thesis by blast
    next
      case False
      with mk nb na ret cv un
      have unfold: "negamax_loop n (c # cs) b p alpha beta bv bm =
          negamax_loop n cs b p (NR_max alpha cv) beta ?bv ?bm"
        by simp
      from \<open>alpha \<noteq> NR_worst\<close> have "NR_max alpha cv \<noteq> NR_worst" by (rule NR_max_not_worst)
      from Cons.IH [OF \<open>wf_board b\<close> this \<open>beta \<noteq> NR_worst\<close> rest, of ?bv ?bm] bv_ok
      show ?thesis unfolding unfold by auto
    qed
  qed
qed

lemma negamax_total:
  "wf_board b \<Longrightarrow> alpha \<noteq> NR_worst \<Longrightarrow> beta \<noteq> NR_worst \<Longrightarrow>
     (\<exists>v m. negamax n b p alpha beta = Inr ((v, m), b) \<and> v \<noteq> NR_worst) \<or>
     (negamax n b p alpha beta = Inl OutOfFuel \<and> n \<le> empties b)"
proof (induction n arbitrary: b p alpha beta)
  case 0
  then show ?case by simp
next
  case (Suc n)
  from \<open>wf_board b\<close> have wfg: "wf_grid (board b)" by (simp add: wf_board_def)
  then show ?case
  proof (cases rule: check_for_win_outcome)
    case (over w)
    from over(2) obtain v where "terminal_result w p = Inr v" "v \<noteq> NR_worst"
      by (rule terminal_result_ok)
    with over show ?thesis by simp
  next
    case playing
    have "(\<exists>v m. negamax_loop n (legal_moves b) b p alpha beta NR_worst None = Inr ((v, m), b) \<and>
         (v = NR_worst \<longrightarrow> NR_worst = NR_worst \<and> legal_moves b = [])) \<or>
      (negamax_loop n (legal_moves b) b p alpha beta NR_worst None = Inl OutOfFuel \<and> n < empties b)"
      by (rule negamax_loop_step [OF Suc.IH]) (use Suc.prems in simp_all)
    with playing wfg show ?thesis
      by (auto simp: get_possible_moves_wf)
  qed
qed

lemma get_next_move_loop_ok:
  assumes wf: "wf_board b"
  shows "set cs \<subseteq> set (legal_moves b) \<Longrightarrow>
     (\<exists>bv' bms'. get_next_move_loop n cs b p bv bms = Inr ((bv', bms'), b) \<and>
        (\<forall>c\<in>set cs. \<exists>v. move_value n b p c = Inr v \<and> v \<noteq> NR_worst \<and> NR_ge bv' v) \<and>
        NR_ge bv' bv \<and> (bv' = bv \<or> (\<exists>c\<in>set cs. move_value n b p c = Inr bv')) \<and>
        bms' = (if NR_gt bv' bv then [] else bms) @
               filter (\<lambda>c. move_value n b p c = Inr bv') cs) \<or>
     (get_next_move_loop n cs b p bv bms = Inl OutOfFuel \<and> n < empties b)"
proof (induction cs arbitrary: bv bms)
  case Nil
  then show ?case by (simp add: NR_ge_def NR_gt_def)
next
  case (Cons c cs)
  from Cons.prems have legal: "c \<in> set (legal_moves b)" and rest: "set cs \<subseteq> set (legal_moves b)"
    by simp_all
  from wf legal obtain b1
    where mk: "make_move b (fst c) (snd c) = Inr (True, b1)" and wf1: "wf_board b1"
      and e1: "Suc (empties b1) = empties b" and un: "undo_move b1 = Inr (Some c, b)"
    by (rule make_move_legal)
  from negamax_total [OF wf1, of NR_other_player NR_player n "NP_other_player p"]
  consider (ret) v m
    where "negamax n b1 (NP_other_player p) NR_other_player NR_player = Inr ((v, m), b1)"
      "v \<noteq> NR_worst"
    | (fuel) "negamax n b1 (NP_other_player p) NR_other_player NR_player = Inl OutOfFuel"
      "n \<le> empties b1"
    by auto
  then show ?case
  proof cases
    case fuel
    with e1 have "n < empties b" by simp
    with fuel mk show ?thesis by simp
  next
    case ret
    from ret(2) obtain cv where cv: "NR_neg v = Inr cv" "cv \<noteq> NR_worst"
      by (rule NR_neg_ok)
    from mk ret cv have val: "move_value n b p c = Inr cv"
      by (simp add: move_value_def)
    let ?bv = "if NR_gt cv bv then cv else bv"
    let ?bms = "if NR_gt cv bv then [c] else if NR_eq cv bv then bms @ [c] else bms"
    from mk ret cv un
    have unfold: "get_next_move_loop n (c # cs) b p bv bms = get_next_move_loop n cs b p ?bv ?bms"
      by simp
    from Cons.IH [OF rest, of ?bv ?bms]
    consider (ok) bv' bms' where "get_next_move_loop n cs b p ?bv ?bms = Inr ((bv', bms'), b)"
      "\<forall>c\<in>set cs. \<exists>v. move_value n b p c = Inr v \<and> v \<noteq> NR_worst \<and> NR_ge bv' v"
      "NR_ge bv' ?bv" "bv' = ?bv \<or> (\<exists>c\<in>set cs. move_value n b p c = Inr bv')"
      "bms' = (if NR_gt bv' ?bv then [] else ?bms) @
               filter (\<lambda>c. move_value n b p c = Inr bv') cs"
      | (out) "get_next_move_loop n cs b p ?bv ?bms = Inl OutOfFuel" "n < empties b"
      by blast
    then show ?thesis
    proof cases
      case out
      then show ?thesis unfolding unfold by simp
    next
      case ok
      have a: "\<forall>c\<in>set (c # cs). \<exists>v. move_value n b p c = Inr v \<and> v \<noteq> NR_worst \<and> NR_ge bv' v"
        using ok(2,3) val cv(2) by (auto simp: NR_ge_def NR_gt_def split: if_splits)
      have b: "NR_ge bv' bv"
        using ok(3) by (auto simp: NR_ge_def NR_gt_def split: if_splits)
      have c: "bv' = bv \<or> (\<exists>c\<in>set (c # cs). move_value n b p c = Inr bv')"
        using ok(4) val by (auto split: if_splits)
      have d: "bms' = (if NR_gt bv' bv then [] else bms) @
               filter (\<lambda>c. move_value n b p c = Inr bv') (c # cs)"
        using ok(3) val unfolding ok(5)
        by (auto simp: NR_ge_def NR_gt_def NR_eq_def NR_value_inj)
      from ok(1) a b c d show ?thesis unfolding unfold by blast
    qed
  qed
qed

lemma NegamaxPlayers_of_player:
  assumes "pl \<noteq> unplayed"
  obtains p where "NegamaxPlayers_of_value (Players_value pl) = Inr p"
  using assms by (cases pl) (simp_all add: NegamaxPlayers_of_value_def)

lemma unplayed_ValueError: "get_next_move fuel randrange b unplayed = Inl ValueError"
  by (simp add: get_next_move_def NegamaxPlayers_of_value_def)

lemma get_next_move_outcome:
  assumes wf: "wf_board b" and pl: "NegamaxPlayers_of_value (Players_value pl) = Inr p"
  obtains (chosen) bv bms where
      "get_next_move_loop fuel (legal_moves b) b p NR_worst [] = Inr ((bv, bms), b)"
      "bms = filter (\<lambda>c. move_value fuel b p c = Inr bv) (legal_moves b)"
      "\<forall>c\<in>set (legal_moves b). \<exists>v. move_value fuel b p c = Inr v \<and> v \<noteq> NR_worst \<and> NR_ge bv v"
      "legal_moves b \<noteq> [] \<longrightarrow> bms \<noteq> []"
      "get_next_move fuel randrange b pl =
         (if bms \<noteq> [] then bindE (getitem bms (int (randrange (length bms)))) (\<lambda>m. Inr (m, b))
          else Inl IndexError)"
  | (out) "get_next_move fuel randrange b pl = Inl OutOfFuel" "fuel < empties b"
proof -
  from wf have wfg: "wf_grid (board b)" by (simp add: wf_board_def)
  have unfold: "get_next_move fuel randrange b pl =
      bindE (get_next_move_loop fuel (legal_moves b) b p NR_worst []) (\<lambda>res.
       if length (snd (fst res)) \<noteq> 0 then
         bindE (getitem (snd (fst res)) (int (randrange (length (snd (fst res))))))
           (\<lambda>m. Inr (m, snd res))
       else
         bindE (getitem (snd (fst res)) 0) (\<lambda>m. Inr (m, snd res)))"
    using pl wfg by (simp add: get_next_move_def get_possible_moves_wf)
  from get_next_move_loop_ok [OF wf subset_refl, of fuel p NR_worst "[]"]
  consider (ok) bv bms where
      "get_next_move_loop fuel (legal_moves b) b p NR_worst [] = Inr ((bv, bms), b)"
      "\<forall>c\<in>set (legal_moves b). \<exists>v. move_value fuel b p c = Inr v \<and> v \<noteq> NR_worst \<and> NR_ge bv v"
      "bv = NR_worst \<or> (\<exists>c\<in>set (legal_moves b). move_value fuel b p c = Inr bv)"
      "bms = (if NR_gt bv NR_worst then [] else []) @
               filter (\<lambda>c. move_value fuel b p c = Inr bv) (legal_moves b)"
    | (fuel) "get_next_move_loop fuel (legal_moves b) b p NR_worst [] = Inl OutOfFuel"
      "fuel < empties b"
    by blast
  then show thesis
  proof cases
    case fuel
    then show ?thesis using unfold by (intro out) simp_all
  next
    case ok
    from ok(4) have bms: "bms = filter (\<lambda>c. move_value fuel b p c = Inr bv) (legal_moves b)"
      by simp
    have nonempty: "legal_moves b \<noteq> [] \<longrightarrow> bms \<noteq> []"
    proof
      assume "legal_moves b \<noteq> []"
      then obtain c where c: "c \<in> set (legal_moves b)" by (cases "legal_moves b") auto
      with ok(2) obtain v where "move_value fuel b p c = Inr v" "v \<noteq> NR_worst" "NR_ge bv v"
        by blast
      then have "bv \<noteq> NR_worst" by (cases v) (auto simp: NR_ge_def)
      with ok(3) obtain c' where "c' \<in> set (legal_moves b)" "move_value fuel b p c' = Inr bv"
        by blast
      then show "bms \<noteq> []" unfolding bms by (auto simp: filter_empty_conv)
    qed
    have "get_next_move fuel randrange b pl =
         (if bms \<noteq> [] then bindE (getitem bms (int (randrange (length bms)))) (\<lambda>m. Inr (m, b))
          else Inl IndexError)"
      unfolding unfold ok(1) by (simp add: getitem_def norm_index_def)
    with ok(1) bms ok(2) nonempty show ?thesis by (rule chosen)
  qed
qed

lemma immediate_win_value:
  assumes "wf_board b" "m \<in> set (legal_moves b)" "wins_immediately b pl m" "pl \<noteq> unplayed"
    and p: "NegamaxPlayers_of_value (Players_value pl) = Inr p"
  shows "move_value (Suc n) b p m = Inr NR_player"
proof -
  from assms(1,2) obtain b1 where mk: "make_move b (fst m) (snd m) = Inr (True, b1)"
    by (rule make_move_legal)
  with assms(3) have win: "check_for_win b1 = Inr (True, win_of pl)"
    by (simp add: wins_immediately_def)
  from p assms(4)
  have "bindE (terminal_result (win_of pl) (NP_other_player p)) (\<lambda>v. NR_neg v) = Inr NR_player"
    by (cases pl)
      (auto simp: NegamaxPlayers_of_value_def win_of_def terminal_result_def NP_other_player_def
        NegamaxResults_of_value_def NR_neg_def NR_eq_def)
  then obtain v where "terminal_result (win_of pl) (NP_other_player p) = Inr v"
    "NR_neg v = Inr NR_player"
    by (auto simp: bindE_Inr_iff)
  with mk win show ?thesis by (simp add: move_value_def)
qed

lemma forced_win_board_facts:
  "wf_board forced_win_board" "player forced_win_board = player_one"
  "(2, 0) \<in> set (legal_moves forced_win_board)"
  by (simp_all add: wf_board_def wf_grid_def forced_win_board_def legal_moves_def all_cells_def
      cell_def)

lemma forced_win_board_wins: "wins_immediately forced_win_board player_one (2, 0)"
  by code_simp

section \<open>The values of the search and the game\<close>

lemma NR_neg_value:
  assumes "NR_neg v = Inr v'"
  shows "NegamaxResults_value v' = - NegamaxResults_value v"
  using assms
  by (cases v) (auto simp: NR_neg_def NR_eq_def NegamaxResults_of_value_def)

lemma NR_value_range: "v \<noteq> NR_worst \<Longrightarrow> - 1 \<le> NegamaxResults_value v \<and> NegamaxResults_value v \<le> 1"
  by (cases v) simp_all

lemma NR_max_value: "NegamaxResults_value (NR_max a v) = max (NegamaxResults_value a) (NegamaxResults_value v)"
  by (simp add: NR_max_def NR_gt_def max_def)

lemma played_legal:
  assumes "make_move b (fst m) (snd m) = Inr (ok, b1)"
  shows "played b m = b1"
  using assms by (simp add: played_def)

lemma fold_max_ge_init: "init \<le> fold (\<lambda>m best. max best (f m)) ms (init::int)"
proof (induction ms arbitrary: init)
  case Nil
  then show ?case by simp
next
  case (Cons m ms)
  have "init \<le> max init (f m)" by simp
  also have "\<dots> \<le> fold (\<lambda>m best. max best (f m)) ms (max init (f m))" by (rule Cons.IH)
  finally show ?case by simp
qed

lemma negamax_loop_sound:
  assumes IH: "\<And>b p alpha beta v m b'. wf_board b \<Longrightarrow> alpha \<noteq> NR_worst \<Longrightarrow> beta \<noteq> NR_worst \<Longrightarrow>
      NegamaxResults_value alpha < NegamaxResults_value beta \<Longrightarrow>
      negamax n b p alpha beta = Inr ((v, m), b') \<Longrightarrow>
      within_bounds (NegamaxResults_value alpha) (NegamaxResults_value beta)
        (NegamaxResults_value v) (exact_value n b p)"
    and wf: "wf_board b" and beta: "beta \<noteq> NR_worst"
  shows "set cs \<subseteq> set (legal_moves b) \<Longrightarrow> alpha \<noteq> NR_worst \<Longrightarrow>
      NegamaxResults_value alpha < NegamaxResults_value beta \<Longrightarrow>
      NegamaxResults_value alpha = max a0 (NegamaxResults_value bv) \<Longrightarrow>
      (NegamaxResults_value bv \<le> a0 \<longrightarrow> tv \<le> NegamaxResults_value bv) \<Longrightarrow>
      (a0 < NegamaxResults_value bv \<longrightarrow> tv = NegamaxResults_value bv) \<Longrightarrow>
      negamax_loop n cs b p alpha beta bv bm = Inr ((v, m), b') \<Longrightarrow>
      within_bounds a0 (NegamaxResults_value beta) (NegamaxResults_value v)
        (fold (\<lambda>m best. max best (- exact_value n (played b m) (NP_other_player p))) cs tv)"
proof (induction cs arbitrary: alpha bv bm tv)
  case Nil
  then show ?case by (auto simp: within_bounds_def)
next
  case (Cons c cs)
  let ?x = "\<lambda>m. - exact_value n (played b m) (NP_other_player p)"
  from Cons.prems(1) have legal: "c \<in> set (legal_moves b)" and rest: "set cs \<subseteq> set (legal_moves b)"
    by simp_all
  from wf legal obtain b1
    where mk: "make_move b (fst c) (snd c) = Inr (True, b1)" and wf1: "wf_board b1"
      and un: "undo_move b1 = Inr (Some c, b)"
    by (rule make_move_legal)
  from mk have pl: "played b c = b1" by (rule played_legal)
  from beta obtain nb where nb: "NR_neg beta = Inr nb" "nb \<noteq> NR_worst"
    by (rule NR_neg_ok)
  from \<open>alpha \<noteq> NR_worst\<close> obtain na where na: "NR_neg alpha = Inr na" "na \<noteq> NR_worst"
    by (rule NR_neg_ok)
  from nb(1) na(1) have nbv: "NegamaxResults_value nb = - NegamaxResults_value beta"
    and nav: "NegamaxResults_value na = - NegamaxResults_value alpha"
    by (simp_all add: NR_neg_value)
  from negamax_total [OF wf1 nb(2) na(2), of n "NP_other_player p"] Cons.prems(7) mk nb(1) na(1)
  obtain rv rm where ret: "negamax n b1 (NP_other_player p) nb na = Inr ((rv, rm), b1)"
      and rv: "rv \<noteq> NR_worst"
    by auto
  from rv obtain cv where cv: "NR_neg rv = Inr cv" "cv \<noteq> NR_worst"
    by (rule NR_neg_ok)
  from cv(1) have cvv: "NegamaxResults_value cv = - NegamaxResults_value rv"
    by (rule NR_neg_value)
  from Cons.prems(3) nbv nav
  have "NegamaxResults_value nb < NegamaxResults_value na" by simp
  from IH [OF wf1 nb(2) na(2) this ret]
  have child: "within_bounds (- NegamaxResults_value beta) (- NegamaxResults_value alpha)
      (NegamaxResults_value rv) (exact_value n b1 (NP_other_player p))"
    by (simp add: nbv nav)
  define y where "y = NegamaxResults_value cv"
  define x where "x = ?x c"
  define al where "al = NegamaxResults_value alpha"
  define be where "be = NegamaxResults_value beta"
  define bvv where "bvv = NegamaxResults_value bv"
  from child have facts: "y \<le> al \<longrightarrow> x \<le> y" "al < y \<and> y < be \<longrightarrow> x = y" "be \<le> y \<longrightarrow> y \<le> x"
    unfolding within_bounds_def y_def x_def al_def be_def cvv pl by auto
  from Cons.prems(3,4,5,6) have st: "al < be" "al = max a0 bvv" "bvv \<le> a0 \<longrightarrow> tv \<le> bvv"
    "a0 < bvv \<longrightarrow> tv = bvv"
    unfolding al_def be_def bvv_def by simp_all
  have fold_eq: "fold (\<lambda>m best. max best (?x m)) (c # cs) tv =
      fold (\<lambda>m best. max best (?x m)) cs (max tv x)"
    by (simp add: x_def)
  show ?case
  proof (cases "NR_ge (NR_max alpha cv) beta")
    case True
    then have "be \<le> max al y" by (auto simp: NR_ge_def NR_max_value al_def be_def y_def)
    with st(1) have bey: "be \<le> y" by simp
    with st have gt: "NR_gt cv bv" by (simp add: NR_gt_def y_def [symmetric] bvv_def [symmetric])
    from True mk nb na ret cv un Cons.prems(7) gt have "v = cv" by simp
    then have vy: "NegamaxResults_value v = y" by (simp add: y_def)
    have "max tv x \<le> fold (\<lambda>m best. max best (?x m)) cs (max tv x)"
      by (rule fold_max_ge_init)
    with facts(3) bey have "y \<le> fold (\<lambda>m best. max best (?x m)) cs (max tv x)" by simp
    with bey st show ?thesis
      unfolding fold_eq vy within_bounds_def be_def [symmetric] by auto
  next
    case False
    then have lt: "max al y < be" by (auto simp: NR_ge_def NR_max_value al_def be_def y_def)
    let ?bv = "if NR_gt cv bv then cv else bv"
    let ?bm = "if NR_gt cv bv then Some c else bm"
    from False mk nb na ret cv un Cons.prems(7)
    have run: "negamax_loop n cs b p (NR_max alpha cv) beta ?bv ?bm = Inr ((v, m), b')"
      by simp
    have bv': "NegamaxResults_value ?bv = max bvv y"
      by (simp add: NR_gt_def y_def bvv_def max_def)
    from \<open>alpha \<noteq> NR_worst\<close> have a': "NR_max alpha cv \<noteq> NR_worst" by (rule NR_max_not_worst)
    have av': "NegamaxResults_value (NR_max alpha cv) = max al y"
      by (simp add: NR_max_value al_def y_def)
    have "within_bounds a0 (NegamaxResults_value beta) (NegamaxResults_value v)
        (fold (\<lambda>m best. max best (?x m)) cs (max tv x))"
    proof (rule Cons.IH [OF rest a' _ _ _ _ run])
      show "NegamaxResults_value (NR_max alpha cv) < NegamaxResults_value beta"
        using lt by (simp add: av' be_def)
      show "NegamaxResults_value (NR_max alpha cv) = max a0 (NegamaxResults_value ?bv)"
        unfolding av' bv' using st(2) by simp
      show "NegamaxResults_value ?bv \<le> a0 \<longrightarrow> max tv x \<le> NegamaxResults_value ?bv"
        unfolding bv' using st facts lt by auto
      show "a0 < NegamaxResults_value ?bv \<longrightarrow> max tv x = NegamaxResults_value ?bv"
        unfolding bv' using st facts lt by auto
    qed
    then show ?thesis unfolding fold_eq .
  qed
qed

lemma negamax_sound:
  "wf_board b \<Longrightarrow> alpha \<noteq> NR_worst \<Longrightarrow> beta \<noteq> NR_worst \<Longrightarrow>
     NegamaxResults_value alpha < NegamaxResults_value beta \<Longrightarrow>
     negamax n b p alpha beta = Inr ((v, m), b') \<Longrightarrow>
     within_bounds (NegamaxResults_value alpha) (NegamaxResults_value beta)
       (NegamaxResults_value v) (exact_value n b p)"
proof (induction n arbitrary: b p alpha beta v m b')
  case 0
  then show ?case by simp
next
  case (Suc n)
  from \<open>wf_board b\<close> have wfg: "wf_grid (board b)" by (simp add: wf_board_def)
  then show ?case
  proof (cases rule: check_for_win_outcome)
    case (over w)
    from over(2) obtain x where x: "Results_value w = Some x" by (cases w) simp_all
    with over Suc.prems(5)
    have "NegamaxResults_of_value (x * NegamaxPlayers_value p) = Inr v"
      by (auto simp: terminal_result_def bindE_Inr_iff)
    moreover from x have "x = 1 \<or> x = - 1 \<or> x = 0" by (cases w) auto
    moreover have "NegamaxPlayers_value p = 1 \<or> NegamaxPlayers_value p = - 1" by (cases p) simp_all
    ultimately have "NegamaxResults_value v = x * NegamaxPlayers_value p"
      by (auto simp: NegamaxResults_of_value_def split: if_splits)
    with over x show ?thesis by (simp add: within_bounds_def)
  next
    case playing
    from playing wfg Suc.prems(5)
    have run: "negamax_loop n (legal_moves b) b p alpha beta NR_worst None = Inr ((v, m), b')"
      by (simp add: get_possible_moves_wf)
    from Suc.prems(2) have ar: "- 1 \<le> NegamaxResults_value alpha" by (simp add: NR_value_range)
    have "within_bounds (NegamaxResults_value alpha) (NegamaxResults_value beta)
        (NegamaxResults_value v)
        (fold (\<lambda>m best. max best (- exact_value n (played b m) (NP_other_player p)))
          (legal_moves b) (- 100))"
    proof (rule negamax_loop_sound [OF Suc.IH \<open>wf_board b\<close> \<open>beta \<noteq> NR_worst\<close> subset_refl
          \<open>alpha \<noteq> NR_worst\<close> Suc.prems(4) _ _ _ run])
      show "NegamaxResults_value alpha = max (NegamaxResults_value alpha) (NegamaxResults_value NR_worst)"
        using ar by simp
      show "NegamaxResults_value NR_worst \<le> NegamaxResults_value alpha \<longrightarrow>
          - 100 \<le> NegamaxResults_value NR_worst" by simp
      show "NegamaxResults_value alpha < NegamaxResults_value NR_worst \<longrightarrow>
          - 100 = NegamaxResults_value NR_worst" by simp
    qed
    with playing show ?thesis by simp
  qed
qed

lemma fold_max_ge_elem:
  "m \<in> set ms \<Longrightarrow> f m \<le> fold (\<lambda>m best. max best (f m)) ms (init::int)"
proof (induction ms arbitrary: init)
  case Nil
  then show ?case by simp
next
  case (Cons a ms)
  show ?case
  proof (cases "m = a")
    case True
    have "f a \<le> max init (f a)" by simp
    also have "\<dots> \<le> fold (\<lambda>m best. max best (f m)) ms (max init (f a))"
      by (rule fold_max_ge_init)
    finally show ?thesis using True by simp
  next
    case False
    with Cons.prems have "m \<in> set ms" by simp
    then show ?thesis by (simp add: Cons.IH)
  qed
qed

lemma fold_max_attained:
  "init < k \<Longrightarrow> k \<le> fold (\<lambda>m best. max best (f m)) ms (init::int) \<Longrightarrow> \<exists>m\<in>set ms. k \<le> f m"
proof (induction ms arbitrary: init)
  case Nil
  then show ?case by simp
next
  case (Cons a ms)
  show ?case
  proof (cases "k \<le> f a")
    case True
    then show ?thesis by auto
  next
    case False
    with Cons.prems(1) have "max init (f a) < k" by simp
    moreover from Cons.prems(2) have "k \<le> fold (\<lambda>m best. max best (f m)) ms (max init (f a))"
      by simp
    ultimately have "\<exists>m\<in>set ms. k \<le> f m" by (rule Cons.IH)
    then show ?thesis by auto
  qed
qed

lemma player_of_other: "player_of (NP_other_player p) = opponent_of (player_of p)"
  by (cases p) (simp_all add: player_of_def NP_other_player_def opponent_of_def)

lemma player_of_not_unplayed: "player_of p \<noteq> unplayed"
  by (simp add: player_of_def)

lemma exact_value_forces_win:
  "wf_board b \<Longrightarrow> player b = player_of p \<Longrightarrow>
     (1 \<le> exact_value n b p \<longrightarrow> forces_win n b (player_of p)) \<and>
     (exact_value n b p \<le> - 1 \<longrightarrow> forces_win n b (opponent_of (player_of p)))"
proof (induction n arbitrary: b p)
  case 0
  then show ?case by simp
next
  case (Suc n)
  let ?x = "\<lambda>m. - exact_value n (played b m) (NP_other_player p)"
  from \<open>wf_board b\<close> have wfg: "wf_grid (board b)" by (simp add: wf_board_def)
  have diff: "opponent_of (player_of p) \<noteq> player_of p"
    by (simp add: opponent_of_differs player_of_not_unplayed)
  from wfg show ?case
  proof (cases rule: check_for_win_outcome)
    case (over w)
    then show ?thesis
      by (cases w; cases p) (simp_all add: win_of_def player_of_def opponent_of_def)
  next
    case playing
    have child: "wf_board (played b m) \<and> player (played b m) = player_of (NP_other_player p)"
      if "m \<in> set (legal_moves b)" for m
    proof -
      from \<open>wf_board b\<close> that obtain b1
        where mk: "make_move b (fst m) (snd m) = Inr (True, b1)" and wf1: "wf_board b1"
          and p1: "player b1 = opponent_of (player b)"
        by (rule make_move_legal)
      from mk have "played b m = b1" by (rule played_legal)
      with wf1 p1 Suc.prems(2) show ?thesis by (simp add: player_of_other)
    qed
    from playing
    have ev: "exact_value (Suc n) b p = fold (\<lambda>m best. max best (?x m)) (legal_moves b) (- 100)"
      by simp
    have first: "forces_win (Suc n) b (player_of p)" if "1 \<le> exact_value (Suc n) b p"
    proof -
      from that ev have "1 \<le> fold (\<lambda>m best. max best (?x m)) (legal_moves b) (- 100)" by simp
      then obtain m where m: "m \<in> set (legal_moves b)" "1 \<le> ?x m"
        using fold_max_attained [of "- 100" 1 ?x "legal_moves b"] by auto
      from m(2) have "exact_value n (played b m) (NP_other_player p) \<le> - 1" by simp
      with Suc.IH [of "played b m" "NP_other_player p"] child [OF m(1)]
      have "forces_win n (played b m) (opponent_of (player_of (NP_other_player p)))" by simp
      then have "forces_win n (played b m) (player_of p)"
        by (simp add: player_of_other opponent_of_twice player_of_not_unplayed)
      with m(1) playing Suc.prems(2) show ?thesis
        by (auto simp: list_ex_iff)
    qed
    have second: "forces_win (Suc n) b (opponent_of (player_of p))"
      if "exact_value (Suc n) b p \<le> - 1"
    proof -
      have "forces_win n (played b m) (opponent_of (player_of p))"
        if m: "m \<in> set (legal_moves b)" for m
      proof -
        from m have "?x m \<le> fold (\<lambda>m best. max best (?x m)) (legal_moves b) (- 100)"
          by (rule fold_max_ge_elem)
        with \<open>exact_value (Suc n) b p \<le> - 1\<close> ev
        have "1 \<le> exact_value n (played b m) (NP_other_player p)" by simp
        with Suc.IH [of "played b m" "NP_other_player p"] child [OF m]
        show ?thesis by (simp add: player_of_other)
      qed
      with playing Suc.prems(2) diff show ?thesis
        by (auto simp: list_all_iff)
    qed
    from first second show ?thesis by blast
  qed
qed

lemma player_of_Players:
  assumes "NegamaxPlayers_of_value (Players_value pl) = Inr p"
  shows "player_of p = pl"
  using assms
  by (cases pl) (auto simp: NegamaxPlayers_of_value_def player_of_def)

lemma move_value_win_forces_win:
  assumes wf: "wf_board b" and legal: "m \<in> set (legal_moves b)" and turn: "player b = pl"
    and p: "NegamaxPlayers_of_value (Players_value pl) = Inr p"
    and val: "move_value n b p m = Inr NR_player"
  shows "forces_win n (played b m) pl"
proof -
  from wf legal obtain b1
    where mk: "make_move b (fst m) (snd m) = Inr (True, b1)" and wf1: "wf_board b1"
      and p1: "player b1 = opponent_of (player b)"
    by (rule make_move_legal)
  from mk have pb: "played b m = b1" by (rule played_legal)
  from p have pp: "player_of p = pl" by (rule player_of_Players)
  from val mk obtain rv rm b2
    where ret: "negamax n b1 (NP_other_player p) NR_other_player NR_player = Inr ((rv, rm), b2)"
      and neg: "NR_neg rv = Inr NR_player"
    by (auto simp: move_value_def bindE_Inr_iff)
  from neg have rvv: "NegamaxResults_value rv = - 1"
    using NR_neg_value [OF neg] by simp
  have "within_bounds (NegamaxResults_value NR_other_player) (NegamaxResults_value NR_player)
      (NegamaxResults_value rv) (exact_value n b1 (NP_other_player p))"
    by (rule negamax_sound [OF wf1 _ _ _ ret]) simp_all
  with rvv have "exact_value n b1 (NP_other_player p) \<le> - 1"
    by (simp add: within_bounds_def)
  moreover from p1 turn pp have "player b1 = player_of (NP_other_player p)"
    by (simp add: player_of_other)
  ultimately have "forces_win n b1 (opponent_of (player_of (NP_other_player p)))"
    using exact_value_forces_win [OF wf1, of "NP_other_player p" n] by simp
  then show ?thesis
    by (simp add: pb player_of_other pp [symmetric] opponent_of_twice player_of_not_unplayed)
qed

section \<open>The claims about the search\<close>

text \<open>
  Claim C1. On a board without an unplayed cell the loop of \<^verbatim>\<open>get_next_move\<close> runs
  no round, \<^verbatim>\<open>best_moves\<close> stays empty, and the last line reads
  \<^verbatim>\<open>best_moves[0]\<close>: the call raises \<^verbatim>\<open>IndexError\<close>. It returns no
  "no move" value.
\<close>

theorem get_next_move_no_moves:
  assumes "get_possible_moves b = Inr []" "pl \<noteq> unplayed"
  shows "get_next_move fuel randrange b pl = Inl IndexError"
proof -
  from assms(2) obtain p where "NegamaxPlayers_of_value (Players_value pl) = Inr p"
    by (rule NegamaxPlayers_of_player)
  with assms(1) show ?thesis
    by (simp add: get_next_move_def getitem_def norm_index_def)
qed

theorem get_next_move_no_moves_witness:
  "get_possible_moves full_board = Inr [] \<and> player_two \<noteq> unplayed \<and>
   get_next_move 9 (\<lambda>k. 0) full_board player_two = Inl IndexError"
proof -
  have h: "get_possible_moves full_board = Inr []"
    by (simp add: get_possible_moves_def full_board_def all_cells_def get_cell_def getitem_def
        norm_index_def)
  from get_next_move_no_moves [OF h, of player_two 9 "\<lambda>k. 0"] h show ?thesis by simp
qed

text \<open>
  Claim C2, amended. When the player to move has a move that wins at once,
  \<^verbatim>\<open>get_next_move\<close> returns a legal move that the search values as a win
  (\<^verbatim>\<open>NegamaxResults.player\<close>) and after which that player can force the win
  (\<open>forces_win\<close>, which speaks of the game alone), and each move that wins at once
  is returned for some draw.
\<close>

theorem get_next_move_with_immediate_win:
  assumes "wf_board b" "player b = pl" "m \<in> set (legal_moves b)" "wins_immediately b pl m"
    "9 \<le> fuel"
  shows "\<exists>p. NegamaxPlayers_of_value (Players_value pl) = Inr p \<and>
     (\<forall>randrange. valid_randrange randrange \<longrightarrow>
        (\<exists>m'. get_next_move fuel randrange b pl = Inr (m', b) \<and> m' \<in> set (legal_moves b) \<and>
           move_value fuel b p m' = Inr NR_player \<and> forces_win fuel (played b m') pl)) \<and>
     (\<exists>randrange. valid_randrange randrange \<and> get_next_move fuel randrange b pl = Inr (m, b))"
proof -
  from assms(1,2) have pl: "pl \<noteq> unplayed" by (auto simp: wf_board_def)
  from assms(1) have wfg: "wf_grid (board b)" by (simp add: wf_board_def)
  from pl obtain p where p: "NegamaxPlayers_of_value (Players_value pl) = Inr p"
    by (rule NegamaxPlayers_of_player)
  from assms(5) obtain n where fuel: "fuel = Suc n" by (cases fuel) simp_all
  from assms(1,3,4) pl p have val: "move_value fuel b p m = Inr NR_player"
    unfolding fuel by (rule immediate_win_value)
  have candidates: "\<exists>bms. bms = filter (\<lambda>c. move_value fuel b p c = Inr NR_player) (legal_moves b) \<and>
      get_next_move fuel randrange b pl =
        bindE (getitem bms (int (randrange (length bms)))) (\<lambda>m. Inr (m, b))" for randrange
    using assms(1) p
  proof (cases rule: get_next_move_outcome [where fuel = fuel and randrange = randrange])
    case out
    with assms(5) empties_le_9 [OF wfg] show ?thesis by simp
  next
    case (chosen bv bms)
    from chosen(3) assms(3) val have "NR_ge bv NR_player" by auto
    then have bv: "bv = NR_player" by (rule NR_ge_player)
    from assms(3) chosen(4) have "bms \<noteq> []" by auto
    with chosen(2,5) bv show ?thesis by simp
  qed
  let ?bms = "filter (\<lambda>c. move_value fuel b p c = Inr NR_player) (legal_moves b)"
  from val assms(3) have mem: "m \<in> set ?bms" by simp
  then have ne: "?bms \<noteq> []" by (metis empty_iff list.set(1))
  have one: "\<exists>m'. get_next_move fuel randrange b pl = Inr (m', b) \<and> m' \<in> set (legal_moves b) \<and>
           move_value fuel b p m' = Inr NR_player \<and> forces_win fuel (played b m') pl"
    if v: "valid_randrange randrange" for randrange
  proof -
    define m' where "m' = ?bms ! randrange (length ?bms)"
    from v ne have "getitem ?bms (int (randrange (length ?bms))) = Inr m'"
      "randrange (length ?bms) < length ?bms"
      unfolding m'_def by (rule getitem_valid)+
    moreover from this(2) have "m' \<in> set ?bms" unfolding m'_def by (rule nth_mem)
    then have chosen: "m' \<in> set (legal_moves b)" "move_value fuel b p m' = Inr NR_player"
      by simp_all
    moreover from assms(1) chosen(1) assms(2) p chosen(2)
    have "forces_win fuel (played b m') pl" by (rule move_value_win_forces_win)
    ultimately show ?thesis using candidates [of randrange] by auto
  qed
  from mem obtain i where i: "i < length ?bms" "?bms ! i = m" by (metis in_set_conv_nth)
  let ?r = "\<lambda>k. if i < k then i else 0"
  have vr: "valid_randrange ?r" by (simp add: valid_randrange_def)
  from vr ne have "getitem ?bms (int (?r (length ?bms))) = Inr (?bms ! ?r (length ?bms))"
    by (rule getitem_valid)
  with i have "getitem ?bms (int (?r (length ?bms))) = Inr m" by simp
  with candidates [of ?r] have "get_next_move fuel ?r b pl = Inr (m, b)" by simp
  with vr have two: "\<exists>randrange. valid_randrange randrange \<and>
      get_next_move fuel randrange b pl = Inr (m, b)" by blast
  from p one two show ?thesis by blast
qed

theorem get_next_move_with_immediate_win_witness:
  "wf_board forced_win_board \<and> player forced_win_board = player_one \<and>
   (2, 0) \<in> set (legal_moves forced_win_board) \<and>
   wins_immediately forced_win_board player_one (2, 0) \<and>
   valid_randrange (\<lambda>k. 0) \<and>
   (\<exists>m'. get_next_move 9 (\<lambda>k. 0) forced_win_board player_one = Inr (m', forced_win_board) \<and>
      m' \<in> set (legal_moves forced_win_board) \<and>
      forces_win 9 (played forced_win_board m') player_one) \<and>
   (\<exists>randrange. valid_randrange randrange \<and>
      get_next_move 9 randrange forced_win_board player_one = Inr ((2, 0), forced_win_board))"
proof -
  have vr: "valid_randrange (\<lambda>k. 0)" by (simp add: valid_randrange_def)
  from get_next_move_with_immediate_win [OF forced_win_board_facts forced_win_board_wins, of 9]
  obtain p where
    every: "\<forall>randrange. valid_randrange randrange \<longrightarrow>
        (\<exists>m'. get_next_move 9 randrange forced_win_board player_one = Inr (m', forced_win_board) \<and>
           m' \<in> set (legal_moves forced_win_board) \<and>
           move_value 9 forced_win_board p m' = Inr NR_player \<and>
           forces_win 9 (played forced_win_board m') player_one)"
    and some: "\<exists>randrange. valid_randrange randrange \<and>
        get_next_move 9 randrange forced_win_board player_one = Inr ((2, 0), forced_win_board)"
    by auto
  from every vr
  have "\<exists>m'. get_next_move 9 (\<lambda>k. 0) forced_win_board player_one = Inr (m', forced_win_board) \<and>
      m' \<in> set (legal_moves forced_win_board) \<and>
      forces_win 9 (played forced_win_board m') player_one"
    by blast
  with some vr forced_win_board_facts forced_win_board_wins show ?thesis by simp
qed

text \<open>
  Claim C2 as stated fails: on a board reached by six accepted moves player one can win
  at once at \<open>(2, 0)\<close>; when \<^verbatim>\<open>randrange\<close> draws 0, \<^verbatim>\<open>get_next_move\<close> returns
  \<open>(0, 2)\<close>, after which the game is not over.
\<close>

theorem get_next_move_forced_win_not_immediate:
  "make_moves Board_init [(0, 0), (0, 1), (1, 0), (1, 2), (1, 1), (2, 1)] = Some forced_win_board \<and>
   wins_immediately forced_win_board player_one (2, 0) \<and>
   get_next_move 9 (\<lambda>k. 0) forced_win_board player_one = Inr ((0, 2), forced_win_board) \<and>
   \<not> wins_immediately forced_win_board player_one (0, 2)"
  by code_simp

text \<open>
  Claim C3. On a well-formed board on which the game is not over, \<^verbatim>\<open>get_next_move\<close>
  returns for either player, and the board it leaves is the board it was given: grid,
  turn and move stack.
\<close>

theorem get_next_move_restores_board:
  assumes "wf_board b" "check_for_win b = Inr (False, w)" "pl \<noteq> unplayed" "9 \<le> fuel"
    "valid_randrange randrange"
  shows "\<exists>m. get_next_move fuel randrange b pl = Inr (m, b)"
proof -
  from assms(1) have wfg: "wf_grid (board b)" by (simp add: wf_board_def)
  from wfg assms(2) have legal: "legal_moves b \<noteq> []"
    by (cases rule: check_for_win_outcome) simp_all
  from assms(3) obtain p where "NegamaxPlayers_of_value (Players_value pl) = Inr p"
    by (rule NegamaxPlayers_of_player)
  with assms(1) show ?thesis
  proof (cases rule: get_next_move_outcome [where fuel = fuel and randrange = randrange])
    case out
    with assms(4) empties_le_9 [OF wfg] show ?thesis by simp
  next
    case (chosen bv bms)
    with legal have "bms \<noteq> []" by simp
    with chosen(5) assms(5) show ?thesis by (simp add: getitem_valid)
  qed
qed

theorem get_next_move_restores_board_witness:
  "wf_board Board_init \<and> check_for_win Board_init = Inr (False, no_win) \<and>
   player_one \<noteq> unplayed \<and> (9::nat) \<le> 9 \<and> valid_randrange (\<lambda>k. 0) \<and>
   (\<exists>m. get_next_move 9 (\<lambda>k. 0) Board_init player_one = Inr (m, Board_init))"
proof -
  have wf: "wf_board Board_init"
    by (simp add: wf_board_def wf_grid_def Board_init_def)
  have nt: "check_for_win Board_init = Inr (False, no_win)"
    by (simp add: check_for_win_def Board_init_def sum3_def cell_value_def get_cell_def
        getitem_def norm_index_def max_line_sum_def board_full_def all_cells_def)
  have vr: "valid_randrange (\<lambda>k. 0)" by (simp add: valid_randrange_def)
  from get_next_move_restores_board [OF wf nt _ _ vr, of player_one 9] wf nt vr
  show ?thesis by simp
qed

text \<open>
  Claim C9. \<^verbatim>\<open>__neg__\<close> is never applied to \<^verbatim>\<open>NegamaxResults.worst\<close> during
  \<^verbatim>\<open>get_next_move\<close>. In the model that branch ends the run with
  \<open>ReturnedNotImplemented\<close> (as does the \<^verbatim>\<open>NotImplemented\<close> branch of
  \<^verbatim>\<open>Players.other_player\<close>), so a run with any other outcome has negated only
  \<^verbatim>\<open>player\<close>, \<^verbatim>\<open>other_player\<close> and \<^verbatim>\<open>tie\<close>. With fuel 9 the run is complete.
\<close>

theorem negation_never_applied_to_worst:
  assumes "wf_board b"
  shows "get_next_move fuel randrange b pl \<noteq> Inl ReturnedNotImplemented \<and>
         (9 \<le> fuel \<longrightarrow> get_next_move fuel randrange b pl \<noteq> Inl OutOfFuel)"
proof (cases "pl = unplayed")
  case True
  then show ?thesis by (simp add: unplayed_ValueError)
next
  case False
  from assms have wfg: "wf_grid (board b)" by (simp add: wf_board_def)
  from False obtain p where "NegamaxPlayers_of_value (Players_value pl) = Inr p"
    by (rule NegamaxPlayers_of_player)
  with assms show ?thesis
  proof (cases rule: get_next_move_outcome [where fuel = fuel and randrange = randrange])
    case out
    with empties_le_9 [OF wfg] show ?thesis by simp
  next
    case (chosen bv bms)
    show ?thesis
    proof (cases "bms = []")
      case True
      with chosen(5) show ?thesis by simp
    next
      case False
      show ?thesis
      proof (cases bms "int (randrange (length bms))" rule: getitem_cases)
        case missing
        with chosen(5) False show ?thesis by simp
      next
        case (found x)
        with chosen(5) False show ?thesis by simp
      qed
    qed
  qed
qed

theorem negation_never_applied_to_worst_witness:
  "wf_board Board_init \<and>
   get_next_move 9 (\<lambda>k. 0) Board_init player_one \<noteq> Inl ReturnedNotImplemented \<and>
   get_next_move 9 (\<lambda>k. 0) Board_init player_one \<noteq> Inl OutOfFuel"
proof -
  have wf: "wf_board Board_init"
    by (simp add: wf_board_def wf_grid_def Board_init_def)
  from negation_never_applied_to_worst [OF wf, of 9 "\<lambda>k. 0" player_one] wf
  show ?thesis by simp
qed

text \<open>
  Claim C10. On a well-formed board with an unplayed cell, whatever number is drawn, a
  move returned by \<^verbatim>\<open>get_next_move\<close> is one of \<^verbatim>\<open>get_possible_moves()\<close>: in range
  and unplayed; and with a number drawn below the bound a move is returned.
\<close>

theorem get_next_move_returns_legal_move:
  assumes "wf_board b" "get_possible_moves b = Inr ms" "ms \<noteq> []" "pl \<noteq> unplayed" "9 \<le> fuel"
  shows "(\<forall>randrange m b'. get_next_move fuel randrange b pl = Inr (m, b') \<longrightarrow>
            m \<in> set ms \<and> in_range m \<and> cell b m = unplayed) \<and>
         (\<forall>randrange. valid_randrange randrange \<longrightarrow>
            (\<exists>m. get_next_move fuel randrange b pl = Inr (m, b)))"
proof -
  from assms(1) have wfg: "wf_grid (board b)" by (simp add: wf_board_def)
  with assms(2) have ms: "ms = legal_moves b" by (simp add: get_possible_moves_wf)
  from assms(4) obtain p where p: "NegamaxPlayers_of_value (Players_value pl) = Inr p"
    by (rule NegamaxPlayers_of_player)
  have one: "m \<in> set ms \<and> in_range m \<and> cell b m = unplayed"
    if "get_next_move fuel randrange b pl = Inr (m, b')" for randrange m b'
    using assms(1) p
  proof (cases rule: get_next_move_outcome [where fuel = fuel and randrange = randrange])
    case out
    with that show ?thesis by simp
  next
    case (chosen bv bms)
    from chosen(5) that have "bms \<noteq> []" by (auto split: if_splits)
    with chosen(5) that
    have "bindE (getitem bms (int (randrange (length bms)))) (\<lambda>m. Inr (m, b)) = Inr (m, b')"
      by simp
    then have "getitem bms (int (randrange (length bms))) = Inr m"
      by (auto simp: bindE_Inr_iff)
    then have "m \<in> set bms" by (rule getitem_member)
    with chosen(2) have "m \<in> set (legal_moves b)" by simp
    then show ?thesis by (simp add: ms legal_moves_iff all_cells_in_range)
  qed
  have two: "\<exists>m. get_next_move fuel randrange b pl = Inr (m, b)"
    if "valid_randrange randrange" for randrange
    using assms(1) p
  proof (cases rule: get_next_move_outcome [where fuel = fuel and randrange = randrange])
    case out
    with assms(5) empties_le_9 [OF wfg] show ?thesis by simp
  next
    case (chosen bv bms)
    with assms(3) ms have "bms \<noteq> []" by simp
    with chosen(5) that show ?thesis by (simp add: getitem_valid)
  qed
  from one two show ?thesis by blast
qed

theorem get_next_move_returns_legal_move_witness:
  "wf_board forced_win_board \<and>
   get_possible_moves forced_win_board = Inr [(0, 2), (2, 0), (2, 2)] \<and>
   valid_randrange (\<lambda>k. k - 1) \<and>
   (\<exists>m. get_next_move 9 (\<lambda>k. k - 1) forced_win_board player_one = Inr (m, forced_win_board) \<and>
        m \<in> set [(0, 2), (2, 0), (2, 2)] \<and> in_range m \<and> cell forced_win_board m = unplayed)"
proof -
  have wf: "wf_board forced_win_board"
    by (simp add: wf_board_def wf_grid_def forced_win_board_def)
  have pm: "get_possible_moves forced_win_board = Inr [(0, 2), (2, 0), (2, 2)]"
    by (simp add: get_possible_moves_def forced_win_board_def all_cells_def get_cell_def
        getitem_def norm_index_def)
  have vr: "valid_randrange (\<lambda>k. k - 1)" by (simp add: valid_randrange_def)
  from get_next_move_returns_legal_move [OF wf pm, of player_one 9] wf pm vr
  show ?thesis by (metis Players.distinct(3) le_refl list.distinct(1))
qed

end
